theory Spec2Isabelle
  imports Complex_Main "HOL-Library.AList"
begin

section \<open>JavaScript values shared by the three services\<close>

text \<open>
  A JavaScript \<^verbatim>\<open>Map\<close> iterates in insertion order: \<^verbatim>\<open>set\<close> on a key that is present
  keeps the key's position, \<^verbatim>\<open>set\<close> on a new key appends, \<^verbatim>\<open>delete\<close> removes. It is an
  association list with distinct keys; \<^const>\<open>AList.update\<close> and \<^const>\<open>AList.delete\<close> are exactly
  these two operations. Numbers that hold timestamps in milliseconds, counters, sizes and user
  ids are integers.
\<close>

type_synonym ('k, 'v) jsmap = "('k \<times> 'v) list"

abbreviation Map_has :: "('k, 'v) jsmap \<Rightarrow> 'k \<Rightarrow> bool" where
  "Map_has m k \<equiv> map_of m k \<noteq> None"

abbreviation Map_get :: "('k, 'v) jsmap \<Rightarrow> 'k \<Rightarrow> 'v option" where
  "Map_get m k \<equiv> map_of m k"

abbreviation Map_set :: "('k, 'v) jsmap \<Rightarrow> 'k \<Rightarrow> 'v \<Rightarrow> ('k, 'v) jsmap" where
  "Map_set m k v \<equiv> AList.update k v m"

abbreviation Map_delete :: "('k, 'v) jsmap \<Rightarrow> 'k \<Rightarrow> ('k, 'v) jsmap" where
  "Map_delete m k \<equiv> AList.delete k m"

abbreviation Map_size :: "('k, 'v) jsmap \<Rightarrow> int" where
  "Map_size m \<equiv> int (length m)"

text \<open>\<^verbatim>\<open>m.keys().next().value\<close>: the first key, \<^verbatim>\<open>undefined\<close> on an empty map.\<close>

fun Map_firstKey :: "('k, 'v) jsmap \<Rightarrow> 'k option" where
  "Map_firstKey [] = None"
| "Map_firstKey ((k, v) # m) = Some k"

text \<open>Truthiness of a string in a condition: the empty string is falsy.\<close>

definition truthy :: "string \<Rightarrow> bool" where
  "truthy s = (s \<noteq> [])"

record User =
  id_user :: int
  name :: string
  email :: string

section \<open>The LRU cache with TTL (services/cacheService.ts)\<close>

record CacheItem =
  data :: User
  timestamp :: int
  accessTime :: int

text \<open>
  \<^verbatim>\<open>averageResponseTime\<close> is a double in the source; it is kept as the exact quotient that the
  double rounds. Its divisor \<^verbatim>\<open>totalRequests\<close> has just been incremented and is at least 1 in
  every cache made by the constructor.
\<close>

record CacheStats =
  hits :: int
  misses :: int
  size_stat :: int
  totalRequests :: int
  averageResponseTime :: rat
  totalResponseTime :: int

record LRUCache =
  cache :: "(string, CacheItem) jsmap"
  maxSize :: int
  ttl :: int
  stats :: CacheStats

text \<open>The constructor; the cleanup timer is the event \<open>cleanupExpiredEntries\<close> below.\<close>

definition LRUCache_new :: "int \<Rightarrow> int \<Rightarrow> LRUCache" where
  "LRUCache_new maxSize0 ttlSeconds =
     \<lparr> cache = [], maxSize = maxSize0, ttl = ttlSeconds * 1000,
       stats = \<lparr> hits = 0, misses = 0, size_stat = 0, totalRequests = 0,
                 averageResponseTime = 0, totalResponseTime = 0 \<rparr> \<rparr>"

text \<open>
  \<^verbatim>\<open>updateStats(startTime)\<close> reads the clock once more; that reading is the parameter
  \<open>endTime\<close>.
\<close>

definition updateStats :: "CacheStats \<Rightarrow> int \<Rightarrow> int \<Rightarrow> CacheStats" where
  "updateStats st startTime endTime =
     (let responseTime = endTime - startTime;
          st1 = st\<lparr> totalRequests := totalRequests st + 1 \<rparr>;
          st2 = st1\<lparr> totalResponseTime := totalResponseTime st1 + responseTime \<rparr>
      in st2\<lparr> averageResponseTime :=
               of_int (totalResponseTime st2) / of_int (totalRequests st2) \<rparr>)"

text \<open>
  \<^verbatim>\<open>get(key)\<close> reads \<^verbatim>\<open>Date.now()\<close> up to four times: at entry (\<open>startTime\<close>), in the
  expiry test (\<open>now\<close>), for the new access time (\<open>touchTime\<close>) and in \<^verbatim>\<open>updateStats\<close>
  (\<open>endTime\<close>). The result is the returned user (\<open>None\<close> for \<^verbatim>\<open>null\<close>) and the cache
  after the call.
\<close>

definition LRUCache_get ::
  "LRUCache \<Rightarrow> string \<Rightarrow> int \<Rightarrow> int \<Rightarrow> int \<Rightarrow> int \<Rightarrow> User option \<times> LRUCache" where
  "LRUCache_get c key startTime now touchTime endTime =
     (case Map_get (cache c) key of
        None \<Rightarrow>
          (None,
           c\<lparr> stats := updateStats ((stats c)\<lparr> misses := misses (stats c) + 1 \<rparr>)
                          startTime endTime \<rparr>)
      | Some item \<Rightarrow>
          if now - timestamp item > ttl c then
            (None,
             c\<lparr> cache := Map_delete (cache c) key,
                stats := updateStats
                  ((stats c)\<lparr> size_stat := size_stat (stats c) - 1,
                              misses := misses (stats c) + 1 \<rparr>)
                  startTime endTime \<rparr>)
          else
            (let item' = item\<lparr> accessTime := touchTime \<rparr> in
             (Some (data item'),
              c\<lparr> cache := Map_set (Map_delete (cache c) key) key item',
                 stats := updateStats ((stats c)\<lparr> hits := hits (stats c) + 1 \<rparr>)
                            startTime endTime \<rparr>)))"

text \<open>
  \<^verbatim>\<open>set(key, data)\<close>. The eviction branch is guarded by \<^verbatim>\<open>if (firstKey)\<close>, a truthiness
  test on a string; the final test \<^verbatim>\<open>!this.cache.has(key) || this.cache.size < this.maxSize\<close>
  is evaluated on the map after the insertion.
\<close>

definition LRUCache_set :: "LRUCache \<Rightarrow> string \<Rightarrow> User \<Rightarrow> int \<Rightarrow> LRUCache" where
  "LRUCache_set c key d now =
     (let c1 =
            (if Map_has (cache c) key then c\<lparr> cache := Map_delete (cache c) key \<rparr>
             else if Map_size (cache c) \<ge> maxSize c then
               (case Map_firstKey (cache c) of
                  None \<Rightarrow> c
                | Some firstKey \<Rightarrow>
                    if truthy firstKey then
                      c\<lparr> cache := Map_delete (cache c) firstKey,
                         stats := (stats c)\<lparr> size_stat := size_stat (stats c) - 1 \<rparr> \<rparr>
                    else c)
             else c);
          c2 = c1\<lparr> cache := Map_set (cache c1) key
                              \<lparr> data = d, timestamp = now, accessTime = now \<rparr> \<rparr>
      in if \<not> Map_has (cache c2) key \<or> Map_size (cache c2) < maxSize c2
         then c2\<lparr> stats := (stats c2)\<lparr> size_stat := size_stat (stats c2) + 1 \<rparr> \<rparr>
         else c2)"

definition LRUCache_delete :: "LRUCache \<Rightarrow> string \<Rightarrow> bool \<times> LRUCache" where
  "LRUCache_delete c key =
     (let deleted = Map_has (cache c) key;
          c1 = c\<lparr> cache := Map_delete (cache c) key \<rparr>
      in if deleted
         then (deleted, c1\<lparr> stats := (stats c1)\<lparr> size_stat := size_stat (stats c1) - 1 \<rparr> \<rparr>)
         else (deleted, c1))"

definition LRUCache_clear :: "LRUCache \<Rightarrow> LRUCache" where
  "LRUCache_clear c = c\<lparr> cache := [], stats := (stats c)\<lparr> size_stat := 0 \<rparr> \<rparr>"

definition LRUCache_getStats :: "LRUCache \<Rightarrow> CacheStats" where
  "LRUCache_getStats c = stats c"

text \<open>The body of the 30-second timer: collect the expired keys, then delete each.\<close>

definition expiredKeys :: "LRUCache \<Rightarrow> int \<Rightarrow> string list" where
  "expiredKeys c now = map fst (filter (\<lambda>(key, item). now - timestamp item > ttl c) (cache c))"

definition cleanupExpiredEntries :: "LRUCache \<Rightarrow> int \<Rightarrow> LRUCache" where
  "cleanupExpiredEntries c now =
     fold (\<lambda>key c'. c'\<lparr> cache := Map_delete (cache c') key,
                         stats := (stats c')\<lparr> size_stat := size_stat (stats c') - 1 \<rparr> \<rparr>)
          (expiredKeys c now) c"

text \<open>
  The operations of the cache as values, to speak of sequences of them. \<open>clock_forward\<close> says
  that the clock did not run backwards between the first and the last reading of a \<^verbatim>\<open>get\<close>;
  \<open>counters_le\<close> compares the four accumulating counters of two snapshots, \<open>counts_le\<close> the
  three that do not depend on the clock.
\<close>

datatype cache_op =
    CacheGet string int int int int
  | CacheSet string User int
  | CacheDelete string
  | CacheClear
  | CacheCleanup int

fun cache_step :: "cache_op \<Rightarrow> LRUCache \<Rightarrow> LRUCache" where
  "cache_step (CacheGet key startTime now touchTime endTime) c =
     snd (LRUCache_get c key startTime now touchTime endTime)"
| "cache_step (CacheSet key d now) c = LRUCache_set c key d now"
| "cache_step (CacheDelete key) c = snd (LRUCache_delete c key)"
| "cache_step CacheClear c = LRUCache_clear c"
| "cache_step (CacheCleanup now) c = cleanupExpiredEntries c now"

fun clock_forward :: "cache_op \<Rightarrow> bool" where
  "clock_forward (CacheGet key startTime now touchTime endTime) = (startTime \<le> endTime)"
| "clock_forward other = True"

definition counters_le :: "CacheStats \<Rightarrow> CacheStats \<Rightarrow> bool" where
  "counters_le s t \<longleftrightarrow>
     hits s \<le> hits t \<and> misses s \<le> misses t \<and> totalRequests s \<le> totalRequests t
     \<and> totalResponseTime s \<le> totalResponseTime t"

definition counts_le :: "CacheStats \<Rightarrow> CacheStats \<Rightarrow> bool" where
  "counts_le s t \<longleftrightarrow>
     hits s \<le> hits t \<and> misses s \<le> misses t \<and> totalRequests s \<le> totalRequests t"

section \<open>The dual-window rate limiter (services/rateLimiter.ts)\<close>

text \<open>
  \<^verbatim>\<open>Math.min(...xs)\<close> of an empty array is \<^verbatim>\<open>Infinity\<close>, and \<^verbatim>\<open>Infinity + w\<close> is
  \<^verbatim>\<open>Infinity\<close>; the reset time of a denial is therefore a number or \<open>Infinity\<close>.
\<close>

datatype jsnum = Num int | Infinity

fun Math_min :: "int list \<Rightarrow> jsnum" where
  "Math_min [] = Infinity"
| "Math_min (x # xs) = (case Math_min xs of Infinity \<Rightarrow> Num x | Num m \<Rightarrow> Num (min x m))"

fun plus_js :: "jsnum \<Rightarrow> int \<Rightarrow> jsnum" where
  "plus_js (Num a) b = Num (a + b)"
| "plus_js Infinity b = Infinity"

record RateLimitEntry =
  requests :: "int list"
  burstRequests :: "int list"

record RateLimiter =
  clients :: "(string, RateLimitEntry) jsmap"
  windowMs :: int
  maxRequests :: int
  burstWindowMs :: int
  maxBurstRequests :: int

record RateLimitResult =
  allowed :: bool
  remaining :: int
  resetTime :: jsnum

text \<open>The constructor; its one-minute timer is the event \<open>RateLimiter_cleanup\<close> below.\<close>

definition RateLimiter_new :: "int \<Rightarrow> int \<Rightarrow> int \<Rightarrow> int \<Rightarrow> RateLimiter" where
  "RateLimiter_new maxRequests0 windowMs0 maxBurstRequests0 burstWindowMs0 =
     \<lparr> clients = [], windowMs = windowMs0, maxRequests = maxRequests0,
       burstWindowMs = burstWindowMs0, maxBurstRequests = maxBurstRequests0 \<rparr>"

text \<open>
  \<^verbatim>\<open>checkLimit(clientId)\<close> at clock reading \<open>now\<close>. The client object is mutated in place,
  so the pruned arrays are stored also when the request is denied. The \<open>None\<close> branch of
  \<open>client\<close> cannot be taken: the key has just been inserted.
\<close>

definition RateLimiter_checkLimit ::
  "RateLimiter \<Rightarrow> string \<Rightarrow> int \<Rightarrow> RateLimitResult \<times> RateLimiter" where
  "RateLimiter_checkLimit r clientId now =
     (let clients1 =
            (if \<not> Map_has (clients r) clientId
             then Map_set (clients r) clientId \<lparr> requests = [], burstRequests = [] \<rparr>
             else clients r);
          client =
            (case Map_get clients1 clientId of
               Some e \<Rightarrow> e
             | None \<Rightarrow> \<lparr> requests = [], burstRequests = [] \<rparr>);
          client1 = client\<lparr> requests := filter (\<lambda>time. now - time < windowMs r) (requests client) \<rparr>;
          client2 = client1\<lparr> burstRequests :=
                               filter (\<lambda>time. now - time < burstWindowMs r) (burstRequests client1) \<rparr>
      in if int (length (burstRequests client2)) \<ge> maxBurstRequests r then
           (let oldestBurstRequest = Math_min (burstRequests client2);
                burstResetTime = plus_js oldestBurstRequest (burstWindowMs r)
            in (\<lparr> allowed = False, remaining = 0, resetTime = burstResetTime \<rparr>,
                r\<lparr> clients := Map_set clients1 clientId client2 \<rparr>))
         else if int (length (requests client2)) \<ge> maxRequests r then
           (let oldestRequest = Math_min (requests client2);
                resetTime0 = plus_js oldestRequest (windowMs r)
            in (\<lparr> allowed = False, remaining = 0, resetTime = resetTime0 \<rparr>,
                r\<lparr> clients := Map_set clients1 clientId client2 \<rparr>))
         else
           (let client3 = client2\<lparr> requests := requests client2 @ [now] \<rparr>;
                client4 = client3\<lparr> burstRequests := burstRequests client3 @ [now] \<rparr>;
                remaining0 = min (maxRequests r - int (length (requests client4)))
                                 (maxBurstRequests r - int (length (burstRequests client4)))
            in (\<lparr> allowed = True, remaining = remaining0, resetTime = Num (now + windowMs r) \<rparr>,
                r\<lparr> clients := Map_set clients1 clientId client4 \<rparr>)))"

definition RateLimiter_cleanup :: "RateLimiter \<Rightarrow> int \<Rightarrow> RateLimiter" where
  "RateLimiter_cleanup r now =
     (let pruned = map (\<lambda>(clientId, client).
                     (clientId,
                      client\<lparr> requests := filter (\<lambda>time. now - time < windowMs r) (requests client),
                              burstRequests :=
                                filter (\<lambda>time. now - time < burstWindowMs r) (burstRequests client) \<rparr>))
                   (clients r);
          clientsToDelete =
            map fst (filter (\<lambda>(clientId, client). requests client = [] \<and> burstRequests client = [])
                       pruned)
      in r\<lparr> clients := fold (\<lambda>clientId m. Map_delete m clientId) clientsToDelete pruned \<rparr>)"

text \<open>The entry of a client before a check: the stored one, or the empty one created for it.\<close>

definition storedEntry :: "RateLimiter \<Rightarrow> string \<Rightarrow> RateLimitEntry" where
  "storedEntry r clientId =
     (case Map_get (clients r) clientId of
        None \<Rightarrow> \<lparr> requests = [], burstRequests = [] \<rparr> | Some e \<Rightarrow> e)"

text \<open>Successive checks of one client at the given clock readings.\<close>

fun checkLimits :: "RateLimiter \<Rightarrow> string \<Rightarrow> int list \<Rightarrow> RateLimiter" where
  "checkLimits r clientId [] = r"
| "checkLimits r clientId (now # nows) =
     checkLimits (snd (RateLimiter_checkLimit r clientId now)) clientId nows"

section \<open>The fetch queue with deduplication (services/queueService.ts)\<close>

text \<open>
  The value an \<^verbatim>\<open>await\<close> of the database call delivers: the user (or \<^verbatim>\<open>null\<close>), or a thrown
  value, which is an \<^verbatim>\<open>Error\<close> instance with its message or anything else.
\<close>

datatype thrown = ThrownError string | ThrownOther

datatype outcome = Returned "User option" | Threw thrown

datatype js_error = Error string

datatype promise = Pending | Fulfilled "User option" | Rejected js_error

text \<open>
  A job holds the \<^verbatim>\<open>resolve\<close> and \<^verbatim>\<open>reject\<close> functions of the promise created for it; they
  are the promise's address \<open>promise_job\<close> in the heap of promises. The \<^verbatim>\<open>id\<close> string
  \<^verbatim>\<open>user-<userId>-<now>\<close> is never read and is left out.
\<close>

record QueueJob =
  userId :: int
  timestamp_job :: int
  promise_job :: nat

record QueueStats =
  processed :: int
  failed :: int
  pending :: int

record QueueService =
  queue :: "QueueJob list"
  processing :: bool
  pendingRequests :: "(int, nat) jsmap"
  qstats :: QueueStats

text \<open>
  An activation of \<^verbatim>\<open>processQueue\<close> is suspended at one of its two \<^verbatim>\<open>await\<close>s: on the
  database call for the job it has taken, or on the 10 ms timer.
\<close>

datatype worker = AwaitingDb QueueJob | AwaitingDelay

text \<open>
  The service together with what the JavaScript runtime holds for it: the promises created by
  \<^verbatim>\<open>addUserFetchJob\<close>; the microtask queue \<open>reactions\<close>, which holds the settled promises
  whose waiters have yet to be resumed; the suspended activations of \<^verbatim>\<open>processQueue\<close>; and
  the log of the calls made to \<^verbatim>\<open>getUserById\<close>. Code between two \<^verbatim>\<open>await\<close>s runs to
  completion before any other callback, promise reactions included, so each function below is
  one such run.
\<close>

record World = QueueService +
  promises :: "promise list"
  reactions :: "nat list"
  workers :: "worker list"
  dbCalls :: "int list"

definition QueueService_new :: World where
  "QueueService_new =
     \<lparr> queue = [], processing = False, pendingRequests = [],
       qstats = \<lparr> processed = 0, failed = 0, pending = 0 \<rparr>,
       promises = [], reactions = [], workers = [], dbCalls = [] \<rparr>"

text \<open>
  \<^verbatim>\<open>resolve\<close> and \<^verbatim>\<open>reject\<close> settle a pending promise and queue the resumption of its waiters
  as a microtask; they do nothing to a settled promise.
\<close>

definition settle :: "promise list \<Rightarrow> nat \<Rightarrow> promise \<Rightarrow> promise list" where
  "settle ps p v = (if p < length ps \<and> ps ! p = Pending then ps[p := v] else ps)"

definition queueReaction :: "promise list \<Rightarrow> nat \<Rightarrow> nat list \<Rightarrow> nat list" where
  "queueReaction ps p rs = (if p < length ps \<and> ps ! p = Pending then rs @ [p] else rs)"

text \<open>
  \<^verbatim>\<open>processQueue\<close> from the test of its \<^verbatim>\<open>while\<close> loop to the next \<^verbatim>\<open>await\<close> or to its
  end: with a job in the queue it takes the first, decrements \<^verbatim>\<open>pending\<close>, calls the database
  and suspends; with none it clears \<^verbatim>\<open>processing\<close> and returns.
\<close>

definition processQueue_loop :: "World \<Rightarrow> World" where
  "processQueue_loop w =
     (case queue w of
        [] \<Rightarrow> w\<lparr> processing := False \<rparr>
      | job # rest \<Rightarrow>
          w\<lparr> queue := rest,
             qstats := (qstats w)\<lparr> pending := pending (qstats w) - 1 \<rparr>,
             dbCalls := dbCalls w @ [userId job],
             workers := workers w @ [AwaitingDb job] \<rparr>)"

definition processQueue :: "World \<Rightarrow> World" where
  "processQueue w =
     (if processing w \<or> length (queue w) = 0 then w
      else processQueue_loop (w\<lparr> processing := True \<rparr>))"

text \<open>
  \<^verbatim>\<open>addUserFetchJob(userId)\<close>: the promise it returns (the \<^verbatim>\<open>async\<close> wrapper follows the
  promise returned inside, so the caller observes that one) and the world after the call. The
  executor of the new promise runs at once, \<^verbatim>\<open>processQueue()\<close> included, before the promise is
  stored in \<^verbatim>\<open>pendingRequests\<close>.
\<close>

definition addUserFetchJob :: "World \<Rightarrow> int \<Rightarrow> int \<Rightarrow> nat \<times> World" where
  "addUserFetchJob w uid now =
     (case Map_get (pendingRequests w) uid of
        Some p \<Rightarrow> (p, w)
      | None \<Rightarrow>
          (let p = length (promises w);
               w1 = w\<lparr> promises := promises w @ [Pending] \<rparr>;
               job = \<lparr> userId = uid, timestamp_job = now, promise_job = p \<rparr>;
               w2 = w1\<lparr> queue := queue w1 @ [job] \<rparr>;
               w3 = w2\<lparr> qstats := (qstats w2)\<lparr> pending := pending (qstats w2) + 1 \<rparr> \<rparr>;
               w4 = (if \<not> processing w3 then processQueue w3 else w3);
               w5 = w4\<lparr> pendingRequests := Map_set (pendingRequests w4) uid p \<rparr>
           in (p, w5)))"

text \<open>
  The activation at index \<open>i\<close> resumes from its database call with \<open>out\<close>: the \<^verbatim>\<open>try\<close> body
  or the \<^verbatim>\<open>catch\<close> body, up to the \<^verbatim>\<open>await\<close> of the timer. \<open>None\<close> when no activation waits
  there.
\<close>

definition rejectReason :: "thrown \<Rightarrow> js_error" where
  "rejectReason e = (case e of ThrownError m \<Rightarrow> Error m | ThrownOther \<Rightarrow> Error ''Unknown error'')"

definition resumeAfterDb :: "World \<Rightarrow> nat \<Rightarrow> outcome \<Rightarrow> World option" where
  "resumeAfterDb w i out =
     (if i < length (workers w) then
        (case workers w ! i of
           AwaitingDelay \<Rightarrow> None
         | AwaitingDb job \<Rightarrow>
             (let w1 =
                    (case out of
                       Returned user \<Rightarrow>
                         w\<lparr> promises := settle (promises w) (promise_job job) (Fulfilled user),
                            reactions :=
                              queueReaction (promises w) (promise_job job) (reactions w),
                            qstats := (qstats w)\<lparr> processed := processed (qstats w) + 1 \<rparr>,
                            pendingRequests := Map_delete (pendingRequests w) (userId job) \<rparr>
                     | Threw e \<Rightarrow>
                         w\<lparr> promises :=
                              settle (promises w) (promise_job job) (Rejected (rejectReason e)),
                            reactions :=
                              queueReaction (promises w) (promise_job job) (reactions w),
                            qstats := (qstats w)\<lparr> failed := failed (qstats w) + 1 \<rparr>,
                            pendingRequests := Map_delete (pendingRequests w) (userId job) \<rparr>)
              in Some (w1\<lparr> workers := (workers w1)[i := AwaitingDelay] \<rparr>)))
      else None)"

text \<open>The activation at index \<open>i\<close> resumes from the timer and goes round the loop.\<close>

definition resumeAfterDelay :: "World \<Rightarrow> nat \<Rightarrow> World option" where
  "resumeAfterDelay w i =
     (if i < length (workers w) \<and> workers w ! i = AwaitingDelay
      then Some (processQueue_loop (w\<lparr> workers := take i (workers w) @ drop (Suc i) (workers w) \<rparr>))
      else None)"

definition shutdownError :: js_error where
  "shutdownError = Error ''Queue service is shutting down''"

text \<open>
  \<^verbatim>\<open>this.queue.forEach(job => job.reject(...))\<close> on the promises and the microtask queue.
\<close>

definition rejectQueued ::
  "QueueJob list \<Rightarrow> promise list \<times> nat list \<Rightarrow> promise list \<times> nat list" where
  "rejectQueued js =
     fold (\<lambda>job (ps, rs). (settle ps (promise_job job) (Rejected shutdownError),
                           queueReaction ps (promise_job job) rs)) js"

definition close :: "World \<Rightarrow> World" where
  "close w =
     (case rejectQueued (queue w) (promises w, reactions w) of
        (ps, rs) \<Rightarrow> w\<lparr> promises := ps, reactions := rs, queue := [], pendingRequests := [] \<rparr>)"

text \<open>
  The first microtask runs: the waiters of a settled promise are resumed. What they go on to do
  with the service is a later event.
\<close>

definition runReaction :: "World \<Rightarrow> World option" where
  "runReaction w = (case reactions w of [] \<Rightarrow> None | p # rs \<Rightarrow> Some (w\<lparr> reactions := rs \<rparr>))"

record QueueStatus =
  waiting :: int
  processing_status :: bool
  pendingRequests_status :: int
  stats_status :: QueueStats

definition getQueueStatus :: "World \<Rightarrow> QueueStatus" where
  "getQueueStatus w =
     \<lparr> waiting = int (length (queue w)), processing_status = processing w,
       pendingRequests_status = Map_size (pendingRequests w), stats_status = qstats w \<rparr>"

text \<open>What can happen to the service, and runs of such events from a given world.\<close>

datatype event =
    AddUserFetchJob int int
  | DbSettled nat outcome
  | DelayElapsed nat
  | Close
  | RunReaction

fun step :: "event \<Rightarrow> World \<Rightarrow> World option" where
  "step (AddUserFetchJob uid now) w = Some (snd (addUserFetchJob w uid now))"
| "step (DbSettled i out) w = resumeAfterDb w i out"
| "step (DelayElapsed i) w = resumeAfterDelay w i"
| "step Close w = Some (close w)"
| "step RunReaction w = runReaction w"

fun exec :: "event list \<Rightarrow> World \<Rightarrow> World option" where
  "exec [] w = Some w"
| "exec (e # es) w = (case step e w of None \<Rightarrow> None | Some w' \<Rightarrow> exec es w')"

text \<open>
  What a step adds to \<^verbatim>\<open>stats.pending\<close>: one for a job that is enqueued and not started at
  once, minus one for a job that the loop takes after its timer, nothing otherwise.
\<close>

fun pending_change :: "event \<Rightarrow> World \<Rightarrow> int" where
  "pending_change (AddUserFetchJob uid now) w =
     (if Map_get (pendingRequests w) uid = None \<and> processing w then 1 else 0)"
| "pending_change (DelayElapsed i) w = (if queue w = [] then 0 else - 1)"
| "pending_change other w = 0"

text \<open>
  The jobs that have been created and not finished: those in the queue and the one (if any) whose
  database call is awaited. The invariant \<open>wf\<close> holds of every world the events can reach:
  at most one activation of \<^verbatim>\<open>processQueue\<close> exists, and exactly when \<^verbatim>\<open>processing\<close> is
  set; the queue is empty when idle; the promises of unfinished jobs are pending and pairwise
  different; the keys of \<^verbatim>\<open>pendingRequests\<close> are distinct, and each of its entries is the
  promise of an unfinished job for that key.
\<close>

fun inflight :: "worker list \<Rightarrow> QueueJob list" where
  "inflight [] = []"
| "inflight (AwaitingDb job # ws) = job # inflight ws"
| "inflight (AwaitingDelay # ws) = inflight ws"

definition live :: "World \<Rightarrow> QueueJob list" where
  "live w = queue w @ inflight (workers w)"

definition wf :: "World \<Rightarrow> bool" where
  "wf w \<longleftrightarrow>
     length (workers w) \<le> 1
     \<and> processing w = (workers w \<noteq> [])
     \<and> (\<not> processing w \<longrightarrow> queue w = [])
     \<and> (\<forall>job \<in> set (live w).
           promise_job job < length (promises w) \<and> promises w ! promise_job job = Pending)
     \<and> distinct (map promise_job (live w))
     \<and> distinct (map fst (pendingRequests w))
     \<and> (\<forall>(k, p) \<in> set (pendingRequests w).
           \<exists>job \<in> set (live w). userId job = k \<and> promise_job job = p)"

text \<open>
  Every unfinished job is registered under its key. This holds until \<^verbatim>\<open>close()\<close> clears
  \<^verbatim>\<open>pendingRequests\<close> while a job is in flight.
\<close>

definition all_registered :: "World \<Rightarrow> bool" where
  "all_registered w \<longleftrightarrow>
     (\<forall>job \<in> set (live w). Map_get (pendingRequests w) (userId job) = Some (promise_job job))"

text \<open>Every promise in the microtask queue is settled.\<close>

definition reactions_settled :: "World \<Rightarrow> bool" where
  "reactions_settled w \<longleftrightarrow>
     (\<forall>p \<in> set (reactions w). p < length (promises w) \<and> promises w ! p \<noteq> Pending)"

text \<open>Consecutive calls for one key, at the given clock readings.\<close>

fun addMany :: "World \<Rightarrow> int \<Rightarrow> int list \<Rightarrow> nat list \<times> World" where
  "addMany w uid [] = ([], w)"
| "addMany w uid (now # nows) =
     (case addUserFetchJob w uid now of
        (p, w') \<Rightarrow> (case addMany w' uid nows of (ps, w'') \<Rightarrow> (p # ps, w'')))"

text \<open>
  The events by which the single activation of \<^verbatim>\<open>processQueue\<close> works off all unfinished
  jobs when nothing else happens: each database call returns with the next of the outcomes
  \<open>outs\<close>, and each timer fires.
\<close>

definition drainEvents :: "outcome list \<Rightarrow> event list" where
  "drainEvents outs = concat (map (\<lambda>out. [DbSettled 0 out, DelayElapsed 0]) outs)"

fun finishEvents :: "worker list \<Rightarrow> outcome list \<Rightarrow> event list" where
  "finishEvents (AwaitingDelay # ws) outs = DelayElapsed 0 # drainEvents outs"
| "finishEvents ws outs = drainEvents outs"

section \<open>Example values\<close>

definition john :: User where
  "john = \<lparr> id_user = 1, name = ''John Doe'', email = ''john@example.com'' \<rparr>"

definition jane :: User where
  "jane = \<lparr> id_user = 2, name = ''Jane Smith'', email = ''jane@example.com'' \<rparr>"

text \<open>
  Three worlds of the queue: after one call for user 1; after that call's database lookup has
  thrown; and after calls for users 1, 2 and 3.
\<close>

definition example_inflight :: World where
  "example_inflight =
     \<lparr> queue = [], processing = True, pendingRequests = [(1, 0)],
       qstats = \<lparr> processed = 0, failed = 0, pending = 0 \<rparr>,
       promises = [Pending], reactions = [],
       workers = [AwaitingDb \<lparr> userId = 1, timestamp_job = 0, promise_job = 0 \<rparr>],
       dbCalls = [1] \<rparr>"

definition example_failed :: World where
  "example_failed =
     \<lparr> queue = [], processing = True, pendingRequests = [],
       qstats = \<lparr> processed = 0, failed = 1, pending = 0 \<rparr>,
       promises = [Rejected (Error ''connection lost'')], reactions = [0],
       workers = [AwaitingDelay],
       dbCalls = [1] \<rparr>"

definition example_queued :: World where
  "example_queued =
     \<lparr> queue = [\<lparr> userId = 2, timestamp_job = 1, promise_job = 1 \<rparr>,
                \<lparr> userId = 3, timestamp_job = 2, promise_job = 2 \<rparr>],
       processing = True, pendingRequests = [(1, 0), (2, 1), (3, 2)],
       qstats = \<lparr> processed = 0, failed = 0, pending = 2 \<rparr>,
       promises = [Pending, Pending, Pending], reactions = [],
       workers = [AwaitingDb \<lparr> userId = 1, timestamp_job = 0, promise_job = 0 \<rparr>],
       dbCalls = [1] \<rparr>"

section \<open>Properties of the cache\<close>

lemma Map_set_after_delete: "Map_set (Map_delete m k) k v = Map_delete m k @ [(k, v)]"
  by (induction m) auto

text \<open>
  C4. \<^verbatim>\<open>get(key)\<close> whose expiry test reads the clock at \<open>now\<close>: on an absent key it returns
  \<^verbatim>\<open>null\<close>, leaves the map alone and counts a miss; on an entry with
  \<open>now - timestamp > ttl\<close> it returns \<^verbatim>\<open>null\<close>, removes the entry and counts a miss; otherwise
  it returns the stored data, sets the access time, moves the entry to the end of the map (the
  most recently used position) and counts a hit. Hence a read strictly before
  \<open>timestamp + ttl\<close> returns the value and a read strictly after returns \<^verbatim>\<open>null\<close>.
\<close>

theorem LRUCache_get_ttl:
  "case LRUCache_get c key startTime now touchTime endTime of (res, c') \<Rightarrow>
     (case Map_get (cache c) key of
        None \<Rightarrow>
          res = None \<and> cache c' = cache c
          \<and> misses (stats c') = misses (stats c) + 1 \<and> hits (stats c') = hits (stats c)
      | Some item \<Rightarrow>
          (if now - timestamp item > ttl c
           then res = None \<and> cache c' = Map_delete (cache c) key \<and> Map_get (cache c') key = None
                \<and> misses (stats c') = misses (stats c) + 1 \<and> hits (stats c') = hits (stats c)
           else res = Some (data item)
                \<and> cache c' = Map_delete (cache c) key @ [(key, item\<lparr> accessTime := touchTime \<rparr>)]
                \<and> hits (stats c') = hits (stats c) + 1 \<and> misses (stats c') = misses (stats c))
          \<and> (now < timestamp item + ttl c \<longrightarrow> res = Some (data item))
          \<and> (now > timestamp item + ttl c \<longrightarrow> res = None))"
  by (auto simp: LRUCache_get_def updateStats_def Let_def Map_set_after_delete delete_conv
           split: option.splits)

theorem LRUCache_get_ttl_witness:
  "fst (LRUCache_get (LRUCache_set (LRUCache_new 100 60) ''user:1'' john 1000)
          ''user:1'' 60999 60999 60999 60999) = Some john
   \<and> fst (LRUCache_get (LRUCache_set (LRUCache_new 100 60) ''user:1'' john 1000)
          ''user:1'' 61001 61001 61001 61001) = None
   \<and> fst (LRUCache_get (LRUCache_set (LRUCache_new 100 60) ''user:1'' john 1000)
          ''user:2'' 5 5 5 5) = None"
  using LRUCache_get_ttl [where c = "LRUCache_set (LRUCache_new 100 60) ''user:1'' john 1000"
          and key = "''user:1''" and startTime = 60999 and now = 60999 and touchTime = 60999
          and endTime = 60999]
        LRUCache_get_ttl [where c = "LRUCache_set (LRUCache_new 100 60) ''user:1'' john 1000"
          and key = "''user:1''" and startTime = 61001 and now = 61001 and touchTime = 61001
          and endTime = 61001]
        LRUCache_get_ttl [where c = "LRUCache_set (LRUCache_new 100 60) ''user:1'' john 1000"
          and key = "''user:2''" and startTime = 5 and now = 5 and touchTime = 5 and endTime = 5]
  by (simp add: LRUCache_new_def LRUCache_set_def Let_def split: prod.splits)

lemmas cache_ops = LRUCache_new_def LRUCache_set_def LRUCache_get_def LRUCache_getStats_def
  updateStats_def truthy_def john_def jane_def Let_def

text \<open>
  C5, the parts that hold. Writing a key that is present replaces its entry and moves it to the
  most recently used position, evicting nothing; writing a new key below capacity appends it;
  writing a new key at capacity removes the first entry of the map, provided its key is a
  non-empty string, and appends the new one.
\<close>

lemma LRUCache_set_touch:
  assumes "Map_has (cache c) key"
  shows "cache (LRUCache_set c key d now) =
           Map_delete (cache c) key @ [(key, \<lparr> data = d, timestamp = now, accessTime = now \<rparr>)]"
  using assms by (simp add: LRUCache_set_def Let_def Map_set_after_delete)

lemma Map_set_absent: "Map_get m k = None \<Longrightarrow> Map_set m k v = m @ [(k, v)]"
  by (induction m) (auto split: if_splits)

lemma Map_delete_absent: "Map_get m k = None \<Longrightarrow> Map_delete m k = m"
  by (induction m) (auto split: if_splits)

lemma LRUCache_set_room:
  assumes "Map_get (cache c) key = None" "Map_size (cache c) < maxSize c"
  shows "cache (LRUCache_set c key d now) =
           cache c @ [(key, \<lparr> data = d, timestamp = now, accessTime = now \<rparr>)]"
  using assms by (simp add: LRUCache_set_def Let_def Map_set_absent)

lemma LRUCache_set_evict:
  assumes "Map_get (cache c) key = None" "Map_size (cache c) \<ge> maxSize c"
    and "cache c = (firstKey, item) # rest" "truthy firstKey" "distinct (map fst (cache c))"
  shows "cache (LRUCache_set c key d now) =
           rest @ [(key, \<lparr> data = d, timestamp = now, accessTime = now \<rparr>)]"
proof -
  from assms(3,5) have "Map_get rest firstKey = None"
    by (simp add: map_of_eq_None_iff)
  then have del: "Map_delete (cache c) firstKey = rest"
    by (simp add: assms(3) Map_delete_absent)
  from assms(1,3) have "Map_get rest key = None"
    by (simp split: if_splits)
  then show ?thesis
    using assms(1,2,4) del by (simp add: LRUCache_set_def Let_def assms(3) Map_set_absent)
qed

lemma LRUCache_lru_example:
  "map fst (cache
     (LRUCache_set
        (snd (LRUCache_get
           (LRUCache_set (LRUCache_set (LRUCache_new 2 60) ''A'' john 0) ''B'' jane 1)
           ''A'' 2 2 2 2))
        ''C'' john 3)) = [''A'', ''C'']"
  by (simp add: cache_ops)

text \<open>
  C5, where it fails. The eviction is guarded by \<^verbatim>\<open>if (firstKey)\<close>, and the empty string is
  falsy: with capacity 1, after \<^verbatim>\<open>set("", john)\<close> the call \<^verbatim>\<open>set("user:2", jane)\<close> evicts
  nothing, and the map holds two entries.
\<close>

theorem LRUCache_set_keeps_empty_first_key:
  "map fst (cache (LRUCache_set (LRUCache_set (LRUCache_new 1 60) '''' john 0) ''user:2'' jane 1))
     = ['''', ''user:2'']
   \<and> maxSize (LRUCache_set (LRUCache_set (LRUCache_new 1 60) '''' john 0) ''user:2'' jane 1) = 1"
  by (simp add: cache_ops)

text \<open>The map then holds more entries than the capacity.\<close>

theorem LRUCache_set_keeps_empty_first_key_witness:
  "maxSize (LRUCache_set (LRUCache_set (LRUCache_new 1 60) '''' john 0) ''user:2'' jane 1)
   < Map_size (cache (LRUCache_set (LRUCache_set (LRUCache_new 1 60) '''' john 0) ''user:2'' jane 1))"
proof -
  note e = LRUCache_set_keeps_empty_first_key
  from arg_cong [OF conjunct1 [OF e], of length]
  have "length (cache
          (LRUCache_set (LRUCache_set (LRUCache_new 1 60) '''' john 0) ''user:2'' jane 1)) = 2"
    by simp
  with conjunct2 [OF e] show ?thesis by simp
qed

text \<open>
  C2, where it fails. The counter \<^verbatim>\<open>stats.size\<close> is incremented after an insertion only when
  the map is then below capacity, and also when the key was already present. With capacity 1,
  two insertions of different keys leave one key and a counter of -1; with capacity 2, three
  insertions of the same key leave one key and a counter of 3.
\<close>

theorem LRUCache_size_stat_drifts:
  "size_stat (LRUCache_getStats
       (LRUCache_set (LRUCache_set (LRUCache_new 1 60) ''user:1'' john 0) ''user:2'' jane 1)) = - 1
   \<and> map fst (cache
       (LRUCache_set (LRUCache_set (LRUCache_new 1 60) ''user:1'' john 0) ''user:2'' jane 1))
     = [''user:2'']
   \<and> size_stat (LRUCache_getStats
       (LRUCache_set (LRUCache_set (LRUCache_set (LRUCache_new 2 60)
          ''user:1'' john 0) ''user:1'' john 1) ''user:1'' john 2)) = 3
   \<and> map fst (cache
       (LRUCache_set (LRUCache_set (LRUCache_set (LRUCache_new 2 60)
          ''user:1'' john 0) ''user:1'' john 1) ''user:1'' john 2)) = [''user:1'']"
  by (simp add: cache_ops)

text \<open>The counter is negative in the first run and above the capacity in the second.\<close>

theorem LRUCache_size_stat_drifts_witness:
  "size_stat (LRUCache_getStats
       (LRUCache_set (LRUCache_set (LRUCache_new 1 60) ''user:1'' john 0) ''user:2'' jane 1)) < 0
   \<and> maxSize (LRUCache_new 2 60)
       < size_stat (LRUCache_getStats
           (LRUCache_set (LRUCache_set (LRUCache_set (LRUCache_new 2 60)
              ''user:1'' john 0) ''user:1'' john 1) ''user:1'' john 2))"
  using LRUCache_size_stat_drifts by (simp add: LRUCache_new_def)

section \<open>Properties of the rate limiter\<close>

lemma Math_min_Min: "Math_min xs = (if xs = [] then Infinity else Num (Min (set xs)))"
  by (induction xs) (auto simp: min_def Min_insert2 split: jsnum.splits)

lemma checkLimit_unfold:
  "RateLimiter_checkLimit r clientId now =
     (let e = storedEntry r clientId;
          rs = filter (\<lambda>t. now - t < windowMs r) (requests e);
          bs = filter (\<lambda>t. now - t < burstWindowMs r) (burstRequests e);
          m = (if \<not> Map_has (clients r) clientId
               then Map_set (clients r) clientId \<lparr> requests = [], burstRequests = [] \<rparr>
               else clients r)
      in if int (length bs) \<ge> maxBurstRequests r then
           (\<lparr> allowed = False, remaining = 0,
              resetTime = plus_js (Math_min bs) (burstWindowMs r) \<rparr>,
            r\<lparr> clients := Map_set m clientId (e\<lparr> requests := rs, burstRequests := bs \<rparr>) \<rparr>)
         else if int (length rs) \<ge> maxRequests r then
           (\<lparr> allowed = False, remaining = 0, resetTime = plus_js (Math_min rs) (windowMs r) \<rparr>,
            r\<lparr> clients := Map_set m clientId (e\<lparr> requests := rs, burstRequests := bs \<rparr>) \<rparr>)
         else
           (\<lparr> allowed = True,
              remaining = min (maxRequests r - (int (length rs) + 1))
                              (maxBurstRequests r - (int (length bs) + 1)),
              resetTime = Num (now + windowMs r) \<rparr>,
            r\<lparr> clients := Map_set m clientId
                             (e\<lparr> requests := rs @ [now], burstRequests := bs @ [now] \<rparr>) \<rparr>))"
proof (cases "Map_get (clients r) clientId")
  case None
  then show ?thesis
    by (simp add: RateLimiter_checkLimit_def storedEntry_def Let_def update_conv add.commute)
next
  case (Some e)
  then show ?thesis
    by (simp add: RateLimiter_checkLimit_def storedEntry_def Let_def add.commute)
qed

text \<open>
  C3. Both sequences are pruned to their windows first (\<open>rs\<close>, \<open>bs\<close>). If the pruned burst
  count reaches the burst budget the request is denied with the oldest surviving burst
  timestamp plus the burst window as reset time; otherwise, if the pruned sustained count
  reaches the sustained budget, it is denied with the oldest surviving sustained timestamp plus
  the sustained window; otherwise it is admitted, \<open>now\<close> is appended to both sequences,
  \<open>remaining\<close> is the minimum of the two budgets minus the counts after the append, and the
  reset time is \<open>now + windowMs\<close>. (A denial on an empty pruned sequence, possible only with a
  budget of zero or less, has no oldest timestamp: the reset time is \<open>Infinity\<close>.)
\<close>

theorem checkLimit_dual_window:
  "let e = storedEntry r clientId;
       rs = filter (\<lambda>t. now - t < windowMs r) (requests e);
       bs = filter (\<lambda>t. now - t < burstWindowMs r) (burstRequests e);
       res = fst (RateLimiter_checkLimit r clientId now);
       r' = snd (RateLimiter_checkLimit r clientId now)
   in if int (length bs) \<ge> maxBurstRequests r then
        \<not> allowed res \<and> remaining res = 0
        \<and> resetTime res = (if bs = [] then Infinity else Num (Min (set bs) + burstWindowMs r))
        \<and> Map_get (clients r') clientId = Some \<lparr> requests = rs, burstRequests = bs \<rparr>
      else if int (length rs) \<ge> maxRequests r then
        \<not> allowed res \<and> remaining res = 0
        \<and> resetTime res = (if rs = [] then Infinity else Num (Min (set rs) + windowMs r))
        \<and> Map_get (clients r') clientId = Some \<lparr> requests = rs, burstRequests = bs \<rparr>
      else
        allowed res
        \<and> Map_get (clients r') clientId = Some \<lparr> requests = rs @ [now], burstRequests = bs @ [now] \<rparr>
        \<and> remaining res = min (maxRequests r - (int (length rs) + 1))
                               (maxBurstRequests r - (int (length bs) + 1))
        \<and> resetTime res = Num (now + windowMs r)"
  unfolding checkLimit_unfold Let_def
  by (simp add: Math_min_Min update_conv)

lemma five_admitted:
  "checkLimits (RateLimiter_new 10 60000 5 10000) ''10.0.0.1'' [0, 1000, 2000, 3000, 4000]
   = \<lparr> clients = [(''10.0.0.1'', \<lparr> requests = [0, 1000, 2000, 3000, 4000],
                                    burstRequests = [0, 1000, 2000, 3000, 4000] \<rparr>)],
       windowMs = 60000, maxRequests = 10, burstWindowMs = 10000, maxBurstRequests = 5 \<rparr>"
  by (simp add: RateLimiter_new_def RateLimiter_checkLimit_def Let_def)

theorem checkLimit_dual_window_witness:
  "fst (RateLimiter_checkLimit
         (checkLimits (RateLimiter_new 10 60000 5 10000) ''10.0.0.1'' [0, 1000, 2000, 3000, 4000])
         ''10.0.0.1'' 5000)
   = \<lparr> allowed = False, remaining = 0, resetTime = Num 10000 \<rparr>
   \<and> fst (RateLimiter_checkLimit (RateLimiter_new 10 60000 5 10000) ''10.0.0.1'' 0)
   = \<lparr> allowed = True, remaining = 4, resetTime = Num 60000 \<rparr>"
  using checkLimit_dual_window [where r =
         "checkLimits (RateLimiter_new 10 60000 5 10000) ''10.0.0.1'' [0, 1000, 2000, 3000, 4000]"
         and clientId = "''10.0.0.1''" and now = 5000]
        checkLimit_dual_window [where r = "RateLimiter_new 10 60000 5 10000"
         and clientId = "''10.0.0.1''" and now = 0]
  unfolding five_admitted
  by (simp add: RateLimiter_new_def storedEntry_def Let_def)

section \<open>The invariant of the fetch queue\<close>

lemma wf_new: "wf QueueService_new"
  by (simp add: wf_def QueueService_new_def live_def)

lemma in_set_update: "(k', p') \<in> set (AList.update k v al) \<Longrightarrow> (k', p') = (k, v) \<or> (k', p') \<in> set al"
  by (induction al) (auto split: if_splits)

lemma in_set_delete: "(k', p') \<in> set (AList.delete k al) \<longleftrightarrow> (k', p') \<in> set al \<and> k' \<noteq> k"
  by (induction al) auto

lemma single_worker: "length ws \<le> 1 \<Longrightarrow> ws \<noteq> [] \<Longrightarrow> \<exists>x. ws = [x]"
  by (cases ws) auto

lemma wfI:
  assumes "length (workers w) \<le> 1" "processing w = (workers w \<noteq> [])"
    "\<not> processing w \<Longrightarrow> queue w = []"
    "\<And>job. job \<in> set (live w) \<Longrightarrow>
       promise_job job < length (promises w) \<and> promises w ! promise_job job = Pending"
    "distinct (map promise_job (live w))"
    "distinct (map fst (pendingRequests w))"
    "\<And>k p. (k, p) \<in> set (pendingRequests w) \<Longrightarrow>
       \<exists>job \<in> set (live w). userId job = k \<and> promise_job job = p"
  shows "wf w"
  using assms unfolding wf_def by blast

lemma wf_workers: "wf w \<Longrightarrow> length (workers w) \<le> 1"
  and wf_processing: "wf w \<Longrightarrow> processing w = (workers w \<noteq> [])"
  and wf_idle: "wf w \<Longrightarrow> \<not> processing w \<Longrightarrow> queue w = []"
  and wf_pending: "wf w \<Longrightarrow> job \<in> set (live w) \<Longrightarrow>
       promise_job job < length (promises w) \<and> promises w ! promise_job job = Pending"
  and wf_distinct: "wf w \<Longrightarrow> distinct (map promise_job (live w))"
  and wf_keys: "wf w \<Longrightarrow> distinct (map fst (pendingRequests w))"
  and wf_registered: "wf w \<Longrightarrow> (k, p) \<in> set (pendingRequests w) \<Longrightarrow>
       \<exists>job \<in> set (live w). userId job = k \<and> promise_job job = p"
  unfolding wf_def by fastforce+

lemma wf_idle_empty:
  assumes "wf w" "\<not> processing w"
  shows "workers w = []" "queue w = []" "pendingRequests w = []"
proof -
  show "workers w = []" "queue w = []"
    using assms wf_processing wf_idle by auto
  then have "live w = []" by (simp add: live_def)
  then show "pendingRequests w = []"
    using wf_registered [OF assms(1)] by (cases "pendingRequests w") auto
qed

lemma add_registered: "Map_get (pendingRequests w) uid = Some p \<Longrightarrow> addUserFetchJob w uid now = (p, w)"
  by (simp add: addUserFetchJob_def)

lemma add_busy:
  assumes "Map_get (pendingRequests w) uid = None" "processing w"
  shows "addUserFetchJob w uid now =
     (length (promises w),
      w\<lparr> queue := queue w @ [\<lparr> userId = uid, timestamp_job = now, promise_job = length (promises w) \<rparr>],
         pendingRequests := Map_set (pendingRequests w) uid (length (promises w)),
         qstats := (qstats w)\<lparr> pending := pending (qstats w) + 1 \<rparr>,
         promises := promises w @ [Pending] \<rparr>)"
  using assms by (simp add: addUserFetchJob_def Let_def)

lemma add_idle:
  assumes "Map_get (pendingRequests w) uid = None" "\<not> processing w" "queue w = []"
  shows "addUserFetchJob w uid now =
     (length (promises w),
      w\<lparr> queue := [], processing := True,
         pendingRequests := Map_set (pendingRequests w) uid (length (promises w)),
         qstats := (qstats w)\<lparr> pending := pending (qstats w) + 1 - 1 \<rparr>,
         promises := promises w @ [Pending],
         workers := workers w @
           [AwaitingDb \<lparr> userId = uid, timestamp_job = now, promise_job = length (promises w) \<rparr>],
         dbCalls := dbCalls w @ [uid] \<rparr>)"
  using assms
  by (simp add: addUserFetchJob_def Let_def processQueue_def processQueue_loop_def)

lemma inflight_append: "inflight (ws @ vs) = inflight ws @ inflight vs"
  by (induction ws rule: inflight.induct) auto

lemma wf_add:
  assumes "wf w" shows "wf (snd (addUserFetchJob w uid now))"
proof (cases "Map_get (pendingRequests w) uid")
  case (Some p)
  then show ?thesis using assms by (simp add: add_registered)
next
  case None
  let ?p = "length (promises w)"
  let ?job = "\<lparr> userId = uid, timestamp_job = now, promise_job = ?p \<rparr>"
  note P = wf_pending [OF assms]
  have fresh: "?p \<notin> promise_job ` set (live w)"
    using P by fastforce
  show ?thesis
  proof (cases "processing w")
    case True
    let ?w = "snd (addUserFetchJob w uid now)"
    have l: "live ?w = queue w @ [?job] @ inflight (workers w)"
      by (simp add: add_busy [OF None True] live_def)
    show ?thesis
    proof (rule wfI)
      show "length (workers ?w) \<le> 1"
        using wf_workers [OF assms] by (simp add: add_busy [OF None True])
      show "processing ?w = (workers ?w \<noteq> [])"
        using wf_processing [OF assms] by (simp add: add_busy [OF None True])
      show "queue ?w = []" if "\<not> processing ?w"
        using that True by (simp add: add_busy [OF None True])
      show "promise_job job < length (promises ?w) \<and> promises ?w ! promise_job job = Pending"
        if "job \<in> set (live ?w)" for job
      proof (cases "job = ?job")
        case True
        then show ?thesis by (simp add: add_busy [OF None \<open>processing w\<close>])
      next
        case False
        from that have "job \<in> set (queue w @ [?job] @ inflight (workers w))"
          by (simp only: l)
        with False have "job \<in> set (live w)" by (auto simp: live_def)
        then show ?thesis
          using P [of job] by (simp add: add_busy [OF None True] nth_append)
      qed
      show "distinct (map promise_job (live ?w))"
        unfolding l using wf_distinct [OF assms] fresh by (auto simp: live_def)
      show "distinct (map fst (pendingRequests ?w))"
        using wf_keys [OF assms] by (simp add: add_busy [OF None True] distinct_update)
      show "\<exists>job \<in> set (live ?w). userId job = k \<and> promise_job job = p"
        if "(k, p) \<in> set (pendingRequests ?w)" for k p
      proof -
        from that have "(k, p) = (uid, ?p) \<or> (k, p) \<in> set (pendingRequests w)"
          by (auto simp: add_busy [OF None True] dest: in_set_update)
        then show ?thesis
        proof
          assume "(k, p) = (uid, ?p)"
          then show ?thesis unfolding l by auto
        next
          assume "(k, p) \<in> set (pendingRequests w)"
          from wf_registered [OF assms this] show ?thesis unfolding l by (auto simp: live_def)
        qed
      qed
    qed
  next
    case False
    note e = wf_idle_empty [OF assms False]
    show ?thesis
      by (rule wfI) (simp_all add: add_idle [OF None False e(2)] e live_def)
  qed
qed

lemma settle_length: "length (settle ps p v) = length ps"
  by (simp add: settle_def)

lemma settle_other: "q \<noteq> p \<Longrightarrow> settle ps p v ! q = ps ! q"
  by (simp add: settle_def)

lemma settle_pending: "p < length ps \<Longrightarrow> ps ! p = Pending \<Longrightarrow> settle ps p v ! p = v"
  by (simp add: settle_def)

lemma settle_settled: "ps ! p \<noteq> Pending \<Longrightarrow> settle ps p v = ps"
  by (simp add: settle_def)

lemma resumeAfterDb_Some:
  assumes "wf w" "resumeAfterDb w i out = Some w'"
  obtains job where "i = 0" "workers w = [AwaitingDb job]"
    "w' = w\<lparr> promises := settle (promises w) (promise_job job)
                    (case out of Returned user \<Rightarrow> Fulfilled user
                     | Threw e \<Rightarrow> Rejected (rejectReason e)),
              reactions := queueReaction (promises w) (promise_job job) (reactions w),
              qstats := (case out of
                           Returned user \<Rightarrow> (qstats w)\<lparr> processed := processed (qstats w) + 1 \<rparr>
                         | Threw e \<Rightarrow> (qstats w)\<lparr> failed := failed (qstats w) + 1 \<rparr>),
              pendingRequests := Map_delete (pendingRequests w) (userId job),
              workers := [AwaitingDelay] \<rparr>"
proof -
  from assms(2) have i: "i < length (workers w)"
    by (simp add: resumeAfterDb_def split: if_splits)
  with wf_workers [OF assms(1)] have i0: "i = 0" by simp
  from i wf_workers [OF assms(1)] obtain x where x: "workers w = [x]"
    using single_worker by fastforce
  from assms(2) i0 x obtain job where job: "x = AwaitingDb job"
    by (cases x) (simp_all add: resumeAfterDb_def)
  from assms(2) have "w' = w\<lparr> promises := settle (promises w) (promise_job job)
                    (case out of Returned user \<Rightarrow> Fulfilled user
                     | Threw e \<Rightarrow> Rejected (rejectReason e)),
              reactions := queueReaction (promises w) (promise_job job) (reactions w),
              qstats := (case out of
                           Returned user \<Rightarrow> (qstats w)\<lparr> processed := processed (qstats w) + 1 \<rparr>
                         | Threw e \<Rightarrow> (qstats w)\<lparr> failed := failed (qstats w) + 1 \<rparr>),
              pendingRequests := Map_delete (pendingRequests w) (userId job),
              workers := [AwaitingDelay] \<rparr>"
    by (cases out) (auto simp: resumeAfterDb_def i0 x job)
  with i0 x job that show thesis by blast
qed

lemma wf_resumeAfterDb:
  assumes "wf w" "resumeAfterDb w i out = Some w'"
  shows "wf w'"
proof -
  from assms obtain job v rs st where w: "workers w = [AwaitingDb job]"
    and w': "w' = w\<lparr> promises := settle (promises w) (promise_job job) v, reactions := rs,
                     qstats := st,
                     pendingRequests := Map_delete (pendingRequests w) (userId job),
                     workers := [AwaitingDelay] \<rparr>"
    by (rule resumeAfterDb_Some) blast
  have l: "live w = queue w @ [job]" "live w' = queue w"
    by (simp_all add: live_def w w')
  note P = wf_pending [OF assms(1)]
  have D: "distinct (map promise_job (queue w @ [job]))"
    using wf_distinct [OF assms(1)] by (simp only: l)
  show ?thesis
  proof (rule wfI)
    show "length (workers w') \<le> 1" by (simp add: w')
    show "processing w' = (workers w' \<noteq> [])"
      using wf_processing [OF assms(1)] by (simp add: w w')
    show "queue w' = []" if "\<not> processing w'"
      using that wf_processing [OF assms(1)] by (simp add: w w')
    show "promise_job j < length (promises w') \<and> promises w' ! promise_job j = Pending"
      if "j \<in> set (live w')" for j
    proof -
      from that have j: "j \<in> set (queue w)" by (simp only: l)
      then have "promise_job j \<in> promise_job ` set (queue w)" by simp
      moreover have "promise_job job \<notin> promise_job ` set (queue w)" using D by simp
      ultimately have "promise_job j \<noteq> promise_job job" by metis
      moreover from j have "j \<in> set (live w)" by (simp add: l)
      ultimately show ?thesis
        using P [of j] by (simp add: w' settle_length settle_other)
    qed
    show "distinct (map promise_job (live w'))"
      using D by (simp add: l)
    show "distinct (map fst (pendingRequests w'))"
      using wf_keys [OF assms(1)] by (simp add: w' distinct_delete)
    show "\<exists>j \<in> set (live w'). userId j = k \<and> promise_job j = p"
      if "(k, p) \<in> set (pendingRequests w')" for k p
    proof -
      from that have kp: "(k, p) \<in> set (pendingRequests w)" "k \<noteq> userId job"
        by (simp_all add: w' in_set_delete)
      from wf_registered [OF assms(1) kp(1)] obtain j
        where "j \<in> set (live w)" "userId j = k" "promise_job j = p" by blast
      with kp(2) show ?thesis by (auto simp: l)
    qed
  qed
qed

lemma resumeAfterDelay_Some:
  assumes "wf w" "resumeAfterDelay w i = Some w'"
  shows "i = 0 \<and> workers w = [AwaitingDelay] \<and> w' = processQueue_loop (w\<lparr> workers := [] \<rparr>)"
proof -
  from assms(2) have i: "i < length (workers w)" "workers w ! i = AwaitingDelay"
    by (simp_all add: resumeAfterDelay_def split: if_splits)
  with wf_workers [OF assms(1)] have i0: "i = 0" by simp
  from i wf_workers [OF assms(1)] obtain x where x: "workers w = [x]"
    using single_worker by fastforce
  with i i0 have "workers w = [AwaitingDelay]" by simp
  with assms(2) i0 show ?thesis by (simp add: resumeAfterDelay_def)
qed

lemma wf_resumeAfterDelay:
  assumes "wf w" "resumeAfterDelay w i = Some w'"
  shows "wf w'"
proof -
  from resumeAfterDelay_Some [OF assms]
  have w: "workers w = [AwaitingDelay]" and w': "w' = processQueue_loop (w\<lparr> workers := [] \<rparr>)"
    by simp_all
  have lw: "live w = queue w" by (simp add: live_def w)
  show ?thesis
  proof (cases "queue w")
    case Nil
    then have "live w = []" by (simp add: lw)
    then have "pendingRequests w = []"
      using wf_registered [OF assms(1)] by (cases "pendingRequests w") auto
    then show ?thesis
      by (intro wfI) (simp_all add: w' processQueue_loop_def Nil live_def)
  next
    case (Cons job rest)
    have e: "w' = w\<lparr> queue := rest,
                     qstats := (qstats w)\<lparr> pending := pending (qstats w) - 1 \<rparr>,
                     dbCalls := dbCalls w @ [userId job],
                     workers := [AwaitingDb job] \<rparr>"
      by (simp add: w' processQueue_loop_def Cons)
    have l: "live w' = rest @ [job]" "live w = job # rest"
      by (simp_all add: live_def e w Cons)
    have s: "set (live w') = set (live w)" by (auto simp: l)
    show ?thesis
    proof (rule wfI)
      show "length (workers w') \<le> 1" by (simp add: e)
      show "processing w' = (workers w' \<noteq> [])"
        using wf_processing [OF assms(1)] by (simp add: w e)
      show "queue w' = []" if "\<not> processing w'"
        using that wf_processing [OF assms(1)] by (simp add: w e)
      show "promise_job j < length (promises w') \<and> promises w' ! promise_job j = Pending"
        if "j \<in> set (live w')" for j
        using wf_pending [OF assms(1), of j] that s by (simp add: e)
      show "distinct (map promise_job (live w'))"
        using wf_distinct [OF assms(1)] by (auto simp: l)
      show "distinct (map fst (pendingRequests w'))"
        using wf_keys [OF assms(1)] by (simp add: e)
      show "\<exists>j \<in> set (live w'). userId j = k \<and> promise_job j = p"
        if "(k, p) \<in> set (pendingRequests w')" for k p
        using wf_registered [OF assms(1), of k p] that s by (simp add: e)
    qed
  qed
qed

lemma fold_settle_length:
  "length (fold (\<lambda>job ps. settle ps (promise_job job) v) js ps) = length ps"
  by (induction js arbitrary: ps) (simp_all add: settle_length)

lemma fold_settle_other:
  "q \<notin> promise_job ` set js \<Longrightarrow> fold (\<lambda>job ps. settle ps (promise_job job) v) js ps ! q = ps ! q"
  by (induction js arbitrary: ps) (simp_all add: settle_other)

lemma fst_rejectQueued:
  "fst (rejectQueued js (ps, rs))
     = fold (\<lambda>job ps. settle ps (promise_job job) (Rejected shutdownError)) js ps"
  unfolding rejectQueued_def by (induction js arbitrary: ps rs) simp_all

lemma close_fields:
  "queue (close w) = []" "pendingRequests (close w) = []" "workers (close w) = workers w"
  "processing (close w) = processing w" "qstats (close w) = qstats w"
  "dbCalls (close w) = dbCalls w"
  "promises (close w)
     = fold (\<lambda>job ps. settle ps (promise_job job) (Rejected shutdownError)) (queue w) (promises w)"
  "reactions (close w) = snd (rejectQueued (queue w) (promises w, reactions w))"
  by (simp_all add: close_def split_beta fst_rejectQueued)

lemma wf_reactions_update: "wf (w\<lparr> reactions := rs \<rparr>) = wf w"
  by (simp add: wf_def live_def)

lemma wf_runReaction: "wf w \<Longrightarrow> runReaction w = Some w' \<Longrightarrow> wf w'"
  by (auto simp: runReaction_def wf_reactions_update split: list.splits)

lemma wf_close:
  assumes "wf w" shows "wf (close w)"
proof (rule wfI)
  have l: "live (close w) = inflight (workers w)" by (simp add: close_fields live_def)
  show "length (workers (close w)) \<le> 1"
    using wf_workers [OF assms] by (simp add: close_fields)
  show "processing (close w) = (workers (close w) \<noteq> [])"
    using wf_processing [OF assms] by (simp add: close_fields)
  show "queue (close w) = []" if "\<not> processing (close w)"
    by (simp add: close_fields)
  show "promise_job j < length (promises (close w)) \<and> promises (close w) ! promise_job j = Pending"
    if "j \<in> set (live (close w))" for j
  proof -
    from that have j: "j \<in> set (inflight (workers w))" by (simp only: l)
    then have "promise_job j \<notin> promise_job ` set (queue w)"
      using wf_distinct [OF assms] by (auto simp: live_def)
    moreover from j have "j \<in> set (live w)" by (simp add: live_def)
    ultimately show ?thesis
      using wf_pending [OF assms, of j]
      by (simp add: close_fields fold_settle_length fold_settle_other)
  qed
  show "distinct (map promise_job (live (close w)))"
    unfolding l using wf_distinct [OF assms] by (simp add: live_def)
  show "distinct (map fst (pendingRequests (close w)))"
    by (simp add: close_fields)
  show "\<exists>j \<in> set (live (close w)). userId j = k \<and> promise_job j = p"
    if "(k, p) \<in> set (pendingRequests (close w))" for k p
    using that by (simp add: close_fields)
qed

lemma wf_step:
  assumes "wf w" "step e w = Some w'"
  shows "wf w'"
proof (cases e)
  case (AddUserFetchJob uid now)
  with assms show ?thesis using wf_add [of w uid now] by auto
next
  case (DbSettled i out)
  with assms show ?thesis using wf_resumeAfterDb [of w i out w'] by simp
next
  case (DelayElapsed i)
  with assms show ?thesis using wf_resumeAfterDelay [of w i w'] by simp
next
  case Close
  with assms show ?thesis using wf_close [of w] by auto
next
  case RunReaction
  with assms show ?thesis using wf_runReaction [of w w'] by simp
qed

lemma wf_exec: "wf w \<Longrightarrow> exec es w = Some w' \<Longrightarrow> wf w'"
proof (induction es arbitrary: w)
  case Nil
  then show ?case by simp
next
  case (Cons e es)
  from Cons.prems(2) obtain w1 where w1: "step e w = Some w1" "exec es w1 = Some w'"
    by (auto split: option.splits)
  from wf_step [OF Cons.prems(1) w1(1)] Cons.IH w1(2) show ?case by blast
qed

lemma wf_reachable: "exec es QueueService_new = Some w \<Longrightarrow> wf w"
  using wf_exec [OF wf_new] .

subsection \<open>Effects of the single steps on well-formed worlds\<close>

lemma addMany_registered:
  "Map_get (pendingRequests w) uid = Some p \<Longrightarrow> addMany w uid nows = (replicate (length nows) p, w)"
  by (induction nows) (simp_all add: add_registered)

lemma add_None:
  assumes "wf w" "Map_get (pendingRequests w) uid = None"
  shows "fst (addUserFetchJob w uid now) = length (promises w)"
    and "promises (snd (addUserFetchJob w uid now)) = promises w @ [Pending]"
    and "Map_get (pendingRequests (snd (addUserFetchJob w uid now))) uid = Some (length (promises w))"
proof -
  show "fst (addUserFetchJob w uid now) = length (promises w)"
    and "promises (snd (addUserFetchJob w uid now)) = promises w @ [Pending]"
    and "Map_get (pendingRequests (snd (addUserFetchJob w uid now))) uid = Some (length (promises w))"
    using add_busy [OF assms(2), of now] add_idle [OF assms(2), of now] wf_idle [OF assms(1)]
    by (cases "processing w"; simp add: update_conv)+
qed

lemma registered_pending:
  assumes "wf w" "(k, p) \<in> set (pendingRequests w)"
  shows "p < length (promises w) \<and> promises w ! p = Pending"
  using wf_registered [OF assms] wf_pending [OF assms(1)] by auto

lemma Map_get_in_set: "Map_get m k = Some p \<Longrightarrow> (k, p) \<in> set m"
  by (rule map_of_SomeD)

lemma add_returns_pending:
  assumes "wf w"
  shows "fst (addUserFetchJob w uid now) < length (promises (snd (addUserFetchJob w uid now)))
       \<and> promises (snd (addUserFetchJob w uid now)) ! fst (addUserFetchJob w uid now) = Pending"
proof (cases "Map_get (pendingRequests w) uid")
  case None
  from add_None [OF assms None, of now] show ?thesis by simp
next
  case (Some p)
  from registered_pending [OF assms Map_get_in_set [OF Some]] show ?thesis
    by (simp add: add_registered [OF Some])
qed

lemma resumeAfterDb_effect:
  assumes "wf w" "resumeAfterDb w i out = Some w'"
  shows "\<exists>job. workers w = [AwaitingDb job]
           \<and> promises w ! promise_job job = Pending
           \<and> promises w' ! promise_job job =
               (case out of Returned user \<Rightarrow> Fulfilled user | Threw e \<Rightarrow> Rejected (rejectReason e))
           \<and> length (promises w') = length (promises w)
           \<and> Map_get (pendingRequests w') (userId job) = None
           \<and> workers w' = [AwaitingDelay] \<and> processing w'
           \<and> queue w' = queue w \<and> dbCalls w' = dbCalls w
           \<and> reactions w' = reactions w @ [promise_job job]
           \<and> qstats w' =
               (case out of
                  Returned user \<Rightarrow> (qstats w)\<lparr> processed := processed (qstats w) + 1 \<rparr>
                | Threw e \<Rightarrow> (qstats w)\<lparr> failed := failed (qstats w) + 1 \<rparr>)"
proof -
  from assms obtain job where job: "workers w = [AwaitingDb job]"
    and w': "w' = w\<lparr> promises := settle (promises w) (promise_job job)
                    (case out of Returned user \<Rightarrow> Fulfilled user
                     | Threw e \<Rightarrow> Rejected (rejectReason e)),
              reactions := queueReaction (promises w) (promise_job job) (reactions w),
              qstats := (case out of
                           Returned user \<Rightarrow> (qstats w)\<lparr> processed := processed (qstats w) + 1 \<rparr>
                         | Threw e \<Rightarrow> (qstats w)\<lparr> failed := failed (qstats w) + 1 \<rparr>),
              pendingRequests := Map_delete (pendingRequests w) (userId job),
              workers := [AwaitingDelay] \<rparr>"
    by (rule resumeAfterDb_Some)
  have "job \<in> set (live w)" by (simp add: live_def job)
  from wf_pending [OF assms(1) this]
  have p: "promise_job job < length (promises w)" "promises w ! promise_job job = Pending"
    by simp_all
  have "processing w" using wf_processing [OF assms(1)] job by simp
  then show ?thesis
    using job p by (simp add: w' settle_pending settle_length delete_conv queueReaction_def)
qed

lemma fold_settle_rejects:
  assumes "distinct (map promise_job js)"
    "\<And>j. j \<in> set js \<Longrightarrow> promise_job j < length ps \<and> ps ! promise_job j = Pending"
    "job \<in> set js"
  shows "fold (\<lambda>job ps. settle ps (promise_job job) v) js ps ! promise_job job = v"
  using assms
proof (induction js arbitrary: ps)
  case Nil
  then show ?case by simp
next
  case (Cons j js)
  let ?ps = "settle ps (promise_job j) v"
  show ?case
  proof (cases "job = j")
    case True
    have "promise_job j \<notin> promise_job ` set js" using Cons.prems(1) by simp
    then have "fold (\<lambda>job ps. settle ps (promise_job job) v) js ?ps ! promise_job j
                 = ?ps ! promise_job j"
      by (rule fold_settle_other)
    also have "\<dots> = v" using Cons.prems(2) [of j] by (simp add: settle_pending)
    finally show ?thesis by (simp add: True)
  next
    case False
    with Cons.prems(3) have in_js: "job \<in> set js" by simp
    have d: "distinct (map promise_job js)" using Cons.prems(1) by simp
    have "promise_job k < length ?ps \<and> ?ps ! promise_job k = Pending" if "k \<in> set js" for k
    proof -
      from that have "promise_job k \<in> promise_job ` set js" by simp
      moreover from Cons.prems(1) have "promise_job j \<notin> promise_job ` set js" by simp
      ultimately have "promise_job k \<noteq> promise_job j" by metis
      with Cons.prems(2) [of k] that show ?thesis by (simp add: settle_length settle_other)
    qed
    from Cons.IH [OF d this in_js] show ?thesis by simp
  qed
qed

subsection \<open>One unfinished job per key\<close>

lemma all_registeredD:
  "all_registered w \<Longrightarrow> job \<in> set (live w) \<Longrightarrow>
   Map_get (pendingRequests w) (userId job) = Some (promise_job job)"
  by (simp add: all_registered_def)

lemma one_job_per_key:
  assumes "wf w" "all_registered w"
  shows "distinct (map userId (live w))"
proof -
  have "map promise_job (live w)
          = map (\<lambda>k. the (Map_get (pendingRequests w) k)) (map userId (live w))"
    using all_registeredD [OF assms(2)] by (simp add: comp_def)
  with wf_distinct [OF assms(1)]
  have "distinct (map (\<lambda>k. the (Map_get (pendingRequests w) k)) (map userId (live w)))"
    by simp
  then show ?thesis by (auto simp: distinct_map dest: inj_on_imageI2)
qed

lemma all_registered_new: "all_registered QueueService_new"
  by (simp add: all_registered_def QueueService_new_def live_def)

lemma all_registered_add:
  assumes "wf w" "all_registered w"
  shows "all_registered (snd (addUserFetchJob w uid now))"
proof (cases "Map_get (pendingRequests w) uid")
  case (Some p)
  then show ?thesis using assms(2) by (simp add: add_registered)
next
  case None
  show ?thesis
  proof (cases "processing w")
    case True
    have other: "userId job \<noteq> uid" if "job \<in> set (live w)" for job
      using all_registeredD [OF assms(2) that] None by auto
    show ?thesis
      unfolding all_registered_def add_busy [OF None True] snd_conv
      using all_registeredD [OF assms(2)] other
      by (auto simp: live_def update_conv')
  next
    case False
    note e = wf_idle_empty [OF assms(1) False]
    show ?thesis
      by (simp add: all_registered_def add_idle [OF None False e(2)] e live_def)
  qed
qed

lemma all_registered_resumeAfterDb:
  assumes "wf w" "all_registered w" "resumeAfterDb w i out = Some w'"
  shows "all_registered w'"
proof -
  from assms(1,3) obtain job v rs st where w: "workers w = [AwaitingDb job]"
    and w': "w' = w\<lparr> promises := settle (promises w) (promise_job job) v, reactions := rs,
                     qstats := st,
                     pendingRequests := Map_delete (pendingRequests w) (userId job),
                     workers := [AwaitingDelay] \<rparr>"
    by (rule resumeAfterDb_Some) blast
  have l: "live w = queue w @ [job]" "live w' = queue w"
    by (simp_all add: live_def w w')
  from one_job_per_key [OF assms(1,2)] have "userId job \<notin> userId ` set (queue w)"
    by (simp add: l)
  then have other: "userId j \<noteq> userId job" if "j \<in> set (queue w)" for j
    using that by (metis imageI)
  show ?thesis
    unfolding all_registered_def l
    using all_registeredD [OF assms(2)] other
    by (auto simp: w' l delete_conv')
qed

lemma all_registered_resumeAfterDelay:
  assumes "wf w" "all_registered w" "resumeAfterDelay w i = Some w'"
  shows "all_registered w'"
proof -
  from resumeAfterDelay_Some [OF assms(1,3)]
  have w: "workers w = [AwaitingDelay]" and w': "w' = processQueue_loop (w\<lparr> workers := [] \<rparr>)"
    by simp_all
  show ?thesis
    using assms(2)
    by (auto simp: all_registered_def w' w processQueue_loop_def live_def split: list.splits)
qed

lemma all_registered_exec:
  assumes "wf w" "all_registered w" "exec es w = Some w'" "Close \<notin> set es"
  shows "all_registered w'"
  using assms
proof (induction es arbitrary: w)
  case Nil
  then show ?case by simp
next
  case (Cons e es)
  from Cons.prems(3) obtain w1 where w1: "step e w = Some w1" "exec es w1 = Some w'"
    by (auto split: option.splits)
  have wf1: "wf w1" using Cons.prems(1) w1(1) by (rule wf_step)
  have "all_registered w1"
  proof (cases e)
    case (AddUserFetchJob uid now)
    with w1(1) all_registered_add [OF Cons.prems(1,2), of uid now] show ?thesis by auto
  next
    case (DbSettled i out)
    with w1(1) all_registered_resumeAfterDb [OF Cons.prems(1,2)] show ?thesis by simp
  next
    case (DelayElapsed i)
    with w1(1) all_registered_resumeAfterDelay [OF Cons.prems(1,2)] show ?thesis by simp
  next
    case Close
    with Cons.prems(4) show ?thesis by simp
  next
    case RunReaction
    with w1(1) Cons.prems(2) show ?thesis
      by (auto simp: runReaction_def all_registered_def live_def split: list.splits)
  qed
  from Cons.IH [OF wf1 this w1(2)] Cons.prems(4) show ?case by simp
qed

lemma one_job_per_key_reachable:
  assumes "exec es QueueService_new = Some w" "Close \<notin> set es"
  shows "distinct (map userId (live w))"
  using one_job_per_key [OF wf_reachable [OF assms(1)]
          all_registered_exec [OF wf_new all_registered_new assms]] .

subsection \<open>The microtask queue holds settled promises\<close>

lemma settle_queueReaction:
  assumes "v \<noteq> Pending" "\<forall>q \<in> set rs. q < length ps \<and> ps ! q \<noteq> Pending"
  shows "\<forall>q \<in> set (queueReaction ps p rs). q < length (settle ps p v) \<and> settle ps p v ! q \<noteq> Pending"
  using assms by (auto simp: settle_def queueReaction_def nth_list_update)

lemma rejectQueued_settled:
  assumes "\<forall>q \<in> set rs. q < length ps \<and> ps ! q \<noteq> Pending"
  shows "\<forall>q \<in> set (snd (rejectQueued js (ps, rs))).
           q < length (fst (rejectQueued js (ps, rs))) \<and> fst (rejectQueued js (ps, rs)) ! q \<noteq> Pending"
  using assms
proof (induction js arbitrary: ps rs)
  case Nil
  then show ?case by (simp add: rejectQueued_def)
next
  case (Cons j js)
  have "\<forall>q \<in> set (queueReaction ps (promise_job j) rs).
          q < length (settle ps (promise_job j) (Rejected shutdownError))
          \<and> settle ps (promise_job j) (Rejected shutdownError) ! q \<noteq> Pending"
    using Cons.prems by (intro settle_queueReaction) simp_all
  from Cons.IH [OF this] show ?case by (simp add: rejectQueued_def)
qed

lemma reactions_settledI:
  "(\<And>p. p \<in> set (reactions w) \<Longrightarrow> p < length (promises w) \<and> promises w ! p \<noteq> Pending)
   \<Longrightarrow> reactions_settled w"
  by (simp add: reactions_settled_def)

lemma reactions_settledD:
  "reactions_settled w \<Longrightarrow> p \<in> set (reactions w) \<Longrightarrow>
   p < length (promises w) \<and> promises w ! p \<noteq> Pending"
  by (simp add: reactions_settled_def)

lemma reactions_settled_new: "reactions_settled QueueService_new"
  by (simp add: reactions_settled_def QueueService_new_def)

lemma reactions_settled_add:
  assumes "wf w" "reactions_settled w"
  shows "reactions_settled (snd (addUserFetchJob w uid now))"
proof (cases "Map_get (pendingRequests w) uid")
  case (Some p)
  then show ?thesis using assms(2) by (simp add: add_registered)
next
  case None
  have r: "reactions (snd (addUserFetchJob w uid now)) = reactions w"
    using add_busy [OF None, of now] add_idle [OF None, of now] wf_idle [OF assms(1)]
    by (cases "processing w") simp_all
  show ?thesis
    using assms(2)
    by (auto simp: reactions_settled_def r add_None(2) [OF assms(1) None] nth_append less_Suc_eq)
qed

lemma reactions_settled_resumeAfterDb:
  assumes "wf w" "reactions_settled w" "resumeAfterDb w i out = Some w'"
  shows "reactions_settled w'"
proof -
  let ?v = "case out of Returned user \<Rightarrow> Fulfilled user | Threw e \<Rightarrow> Rejected (rejectReason e)"
  from assms(1,3) obtain job where "i = 0" "workers w = [AwaitingDb job]" and
    "w' = w\<lparr> promises := settle (promises w) (promise_job job)
                    (case out of Returned user \<Rightarrow> Fulfilled user
                     | Threw e \<Rightarrow> Rejected (rejectReason e)),
              reactions := queueReaction (promises w) (promise_job job) (reactions w),
              qstats := (case out of
                           Returned user \<Rightarrow> (qstats w)\<lparr> processed := processed (qstats w) + 1 \<rparr>
                         | Threw e \<Rightarrow> (qstats w)\<lparr> failed := failed (qstats w) + 1 \<rparr>),
              pendingRequests := Map_delete (pendingRequests w) (userId job),
              workers := [AwaitingDelay] \<rparr>"
    by (rule resumeAfterDb_Some)
  then have w': "promises w' = settle (promises w) (promise_job job) ?v"
    "reactions w' = queueReaction (promises w) (promise_job job) (reactions w)"
    by simp_all
  have v: "?v \<noteq> Pending" by (cases out) simp_all
  have "\<forall>q \<in> set (reactions w). q < length (promises w) \<and> promises w ! q \<noteq> Pending"
    using assms(2) by (simp add: reactions_settled_def)
  from settle_queueReaction [OF v this, of "promise_job job"] show ?thesis
    by (simp add: reactions_settled_def w')
qed

lemma reactions_settled_resumeAfterDelay:
  assumes "wf w" "reactions_settled w" "resumeAfterDelay w i = Some w'"
  shows "reactions_settled w'"
proof -
  from resumeAfterDelay_Some [OF assms(1,3)]
  have "w' = processQueue_loop (w\<lparr> workers := [] \<rparr>)" by simp
  then have "promises w' = promises w" "reactions w' = reactions w"
    by (cases "queue w"; simp add: processQueue_loop_def)+
  with assms(2) show ?thesis by (simp add: reactions_settled_def)
qed

lemma reactions_settled_close:
  assumes "reactions_settled w"
  shows "reactions_settled (close w)"
proof -
  have "\<forall>q \<in> set (reactions w). q < length (promises w) \<and> promises w ! q \<noteq> Pending"
    using assms by (simp add: reactions_settled_def)
  from rejectQueued_settled [OF this, of "queue w"] show ?thesis
    by (simp add: reactions_settled_def close_fields fst_rejectQueued)
qed

lemma reactions_settled_runReaction:
  assumes "reactions_settled w" "runReaction w = Some w'"
  shows "reactions_settled w'"
  using assms by (auto simp: reactions_settled_def runReaction_def split: list.splits)

lemma reactions_settled_step:
  assumes "wf w" "reactions_settled w" "step e w = Some w'"
  shows "reactions_settled w'"
proof (cases e)
  case (AddUserFetchJob uid now)
  with assms(3) reactions_settled_add [OF assms(1,2), of uid now] show ?thesis by auto
next
  case (DbSettled i out)
  with assms(3) reactions_settled_resumeAfterDb [OF assms(1,2)] show ?thesis by simp
next
  case (DelayElapsed i)
  with assms(3) reactions_settled_resumeAfterDelay [OF assms(1,2)] show ?thesis by simp
next
  case Close
  with assms(3) reactions_settled_close [OF assms(2)] show ?thesis by auto
next
  case RunReaction
  with assms(3) reactions_settled_runReaction [OF assms(2)] show ?thesis by simp
qed

lemma reactions_settled_exec:
  assumes "wf w" "reactions_settled w" "exec es w = Some w'"
  shows "reactions_settled w'"
  using assms
proof (induction es arbitrary: w)
  case Nil
  then show ?case by simp
next
  case (Cons e es)
  from Cons.prems(3) obtain w1 where w1: "step e w = Some w1" "exec es w1 = Some w'"
    by (auto split: option.splits)
  from Cons.IH [OF wf_step [OF Cons.prems(1) w1(1)]
          reactions_settled_step [OF Cons.prems(1,2) w1(1)] w1(2)]
  show ?case .
qed

lemma reactions_settled_reachable:
  "exec es QueueService_new = Some w \<Longrightarrow> reactions_settled w"
  using reactions_settled_exec [OF wf_new reactions_settled_new] .

section \<open>Working off the queue\<close>

text \<open>
  With one activation of \<^verbatim>\<open>processQueue\<close> suspended and as many outcomes as there are
  unfinished jobs, the events of \<open>drainEvents\<close> can all happen, the database is called once
  for each queued job, in the order of the queue, and the service ends idle.
\<close>

lemmas queue_ops = QueueService_new_def addUserFetchJob_def processQueue_def processQueue_loop_def
  resumeAfterDb_def resumeAfterDelay_def close_def rejectQueued_def runReaction_def settle_def
  queueReaction_def rejectReason_def shutdownError_def
  Let_def

lemma drain_inflight:
  assumes "workers w = [AwaitingDb job]" "length outs = Suc (length (queue w))"
  shows "\<exists>w'. exec (drainEvents outs) w = Some w'
            \<and> dbCalls w' = dbCalls w @ map userId (queue w)
            \<and> queue w' = [] \<and> workers w' = [] \<and> \<not> processing w'"
  using assms
proof (induction outs arbitrary: w job)
  case Nil
  then show ?case by simp
next
  case (Cons out outs)
  obtain w1 where s1: "resumeAfterDb w 0 out = Some w1"
    and w1: "workers w1 = [AwaitingDelay]" "queue w1 = queue w" "dbCalls w1 = dbCalls w"
    using Cons.prems(1) by (cases out) (simp_all add: resumeAfterDb_def)
  show ?case
  proof (cases "queue w")
    case Nil
    with Cons.prems(2) have outs: "outs = []" by simp
    have "resumeAfterDelay w1 0 = Some (w1\<lparr> workers := [], processing := False \<rparr>)"
      by (simp add: resumeAfterDelay_def processQueue_loop_def w1 Nil)
    then show ?thesis
      by (simp add: drainEvents_def s1 outs w1 Nil)
  next
    case (Cons next_job rest)
    let ?w2 = "w1\<lparr> queue := rest,
                    qstats := (qstats w1)\<lparr> pending := pending (qstats w1) - 1 \<rparr>,
                    dbCalls := dbCalls w1 @ [userId next_job],
                    workers := [AwaitingDb next_job] \<rparr>"
    have s2: "resumeAfterDelay w1 0 = Some ?w2"
      by (simp add: resumeAfterDelay_def processQueue_loop_def w1 Cons)
    have "workers ?w2 = [AwaitingDb next_job]" "length outs = Suc (length (queue ?w2))"
      using Cons.prems(2) Cons by simp_all
    from Cons.IH [OF this] obtain w' where
      "exec (drainEvents outs) ?w2 = Some w'"
      "dbCalls w' = dbCalls ?w2 @ map userId (queue ?w2)"
      "queue w' = []" "workers w' = []" "\<not> processing w'" by blast
    then show ?thesis
      by (simp add: drainEvents_def s1 s2 w1 Cons)
  qed
qed

lemma drain_delay:
  assumes "workers w = [AwaitingDelay]" "length outs = length (queue w)"
  shows "\<exists>w'. exec (DelayElapsed 0 # drainEvents outs) w = Some w'
            \<and> dbCalls w' = dbCalls w @ map userId (queue w)
            \<and> queue w' = [] \<and> workers w' = [] \<and> \<not> processing w'"
proof (cases "queue w")
  case Nil
  with assms(2) have outs: "outs = []" by simp
  have "resumeAfterDelay w 0 = Some (w\<lparr> workers := [], processing := False \<rparr>)"
    by (simp add: resumeAfterDelay_def processQueue_loop_def assms(1) Nil)
  then show ?thesis
    by (simp add: drainEvents_def outs Nil)
next
  case (Cons next_job rest)
  let ?w2 = "w\<lparr> queue := rest,
                 qstats := (qstats w)\<lparr> pending := pending (qstats w) - 1 \<rparr>,
                 dbCalls := dbCalls w @ [userId next_job],
                 workers := [AwaitingDb next_job] \<rparr>"
  have s2: "resumeAfterDelay w 0 = Some ?w2"
    by (simp add: resumeAfterDelay_def processQueue_loop_def assms(1) Cons)
  have "workers ?w2 = [AwaitingDb next_job]" "length outs = Suc (length (queue ?w2))"
    using assms(2) Cons by simp_all
  from drain_inflight [OF this] obtain w' where
    "exec (drainEvents outs) ?w2 = Some w'"
    "dbCalls w' = dbCalls ?w2 @ map userId (queue ?w2)"
    "queue w' = []" "workers w' = []" "\<not> processing w'" by blast
  then show ?thesis
    by (simp add: s2 Cons)
qed

lemma finish_calls:
  assumes "wf w" "processing w" "length outs = length (live w)"
  shows "\<exists>w'. exec (finishEvents (workers w) outs) w = Some w'
            \<and> dbCalls w' = dbCalls w @ map userId (queue w)
            \<and> queue w' = [] \<and> workers w' = [] \<and> \<not> processing w'"
proof -
  from wf_processing [OF assms(1)] assms(2) wf_workers [OF assms(1)]
  obtain x where x: "workers w = [x]"
    using single_worker by blast
  show ?thesis
  proof (cases x)
    case (AwaitingDb job)
    with x assms(3) have "workers w = [AwaitingDb job]" "length outs = Suc (length (queue w))"
      by (simp_all add: live_def)
    from drain_inflight [OF this] show ?thesis
      by (simp add: x AwaitingDb)
  next
    case AwaitingDelay
    with x assms(3) have "workers w = [AwaitingDelay]" "length outs = length (queue w)"
      by (simp_all add: live_def)
    from drain_delay [OF this] show ?thesis
      by (simp add: x AwaitingDelay)
  qed
qed

lemma exec_example_inflight: "exec [AddUserFetchJob 1 0] QueueService_new = Some example_inflight"
  by (simp add: queue_ops example_inflight_def)

lemma exec_example_queued:
  "exec [AddUserFetchJob 1 0, AddUserFetchJob 2 1, AddUserFetchJob 3 2] QueueService_new
     = Some example_queued"
  by (simp add: queue_ops example_queued_def)

lemma example_fails:
  "resumeAfterDb example_inflight 0 (Threw (ThrownError ''connection lost'')) = Some example_failed"
  by (simp add: queue_ops example_inflight_def example_failed_def)

section \<open>Properties of the fetch queue\<close>

text \<open>
  C1. In every world the events can reach: a call for a key that is registered in
  \<^verbatim>\<open>pendingRequests\<close> returns the registered promise, which is still pending, and changes
  nothing (no job, no database call); and consecutive calls for a key that is not registered,
  at clock readings \<open>now # nows\<close>, all return one and the same new pending promise, and leave
  the world as the first call alone does: with exactly one new job, which is either in the
  queue (service busy) or already the subject of the one database call that has been issued
  for it (service idle). If nothing else happens, working off all unfinished jobs then makes
  the database calls for the jobs that were queued before, and exactly one for the key.
  Whatever the interleaving of calls, completions and timers, as long as \<^verbatim>\<open>close()\<close> has not
  been called no two unfinished jobs are for the same key.
\<close>

theorem addUserFetchJob_single_flight:
  assumes "exec es QueueService_new = Some w"
  shows "(\<forall>p. Map_get (pendingRequests w) uid = Some p \<longrightarrow>
            addUserFetchJob w uid now = (p, w) \<and> p < length (promises w) \<and> promises w ! p = Pending)
    \<and> (Map_get (pendingRequests w) uid = None \<longrightarrow>
         (let p = length (promises w);
              w' = snd (addUserFetchJob w uid now);
              job = \<lparr> userId = uid, timestamp_job = now, promise_job = p \<rparr>
          in addMany w uid (now # nows) = (replicate (Suc (length nows)) p, w')
             \<and> promises w' = promises w @ [Pending]
             \<and> Map_get (pendingRequests w') uid = Some p
             \<and> (if processing w
                 then queue w' = queue w @ [job] \<and> workers w' = workers w \<and> dbCalls w' = dbCalls w
                 else queue w' = [] \<and> workers w' = [AwaitingDb job]
                      \<and> dbCalls w' = dbCalls w @ [uid])
             \<and> (\<forall>outs. length outs = length (live w') \<longrightarrow>
                   (\<exists>w''. exec (finishEvents (workers w') outs) w' = Some w''
                      \<and> dbCalls w'' = dbCalls w @ map userId (queue w) @ [uid]
                      \<and> \<not> processing w''))))
    \<and> (Close \<notin> set es \<longrightarrow> distinct (map userId (live w)))"
proof (intro conjI allI impI)
  fix p assume p: "Map_get (pendingRequests w) uid = Some p"
  then show "addUserFetchJob w uid now = (p, w)" by (rule add_registered)
  from registered_pending [OF wf_reachable [OF assms] Map_get_in_set [OF p]]
  show "p < length (promises w)" "promises w ! p = Pending" by simp_all
next
  assume None: "Map_get (pendingRequests w) uid = None"
  have wf: "wf w" using assms by (rule wf_reachable)
  let ?p = "length (promises w)" and ?w' = "snd (addUserFetchJob w uid now)"
  note a = add_None [OF wf None, of now]
  have many: "addMany w uid (now # nows) = (replicate (Suc (length nows)) ?p, ?w')"
    using a(1) addMany_registered [OF a(3), of nows] by (simp add: split_beta)
  have shape: "if processing w
      then queue ?w' = queue w @ [\<lparr> userId = uid, timestamp_job = now, promise_job = ?p \<rparr>]
           \<and> workers ?w' = workers w \<and> dbCalls ?w' = dbCalls w
      else queue ?w' = []
           \<and> workers ?w' = [AwaitingDb \<lparr> userId = uid, timestamp_job = now, promise_job = ?p \<rparr>]
           \<and> dbCalls ?w' = dbCalls w @ [uid]"
  proof (cases "processing w")
    case True
    then show ?thesis by (simp add: add_busy [OF None True])
  next
    case False
    note e = wf_idle_empty [OF wf False]
    from False show ?thesis by (simp add: add_idle [OF None False e(2)] e)
  qed
  have wf': "wf ?w'" using wf by (rule wf_add)
  have busy': "processing ?w'"
    using shape wf_processing [OF wf] wf_processing [OF wf'] by (cases "processing w") simp_all
  have finish: "\<exists>w''. exec (finishEvents (workers ?w') outs) ?w' = Some w''
                  \<and> dbCalls w'' = dbCalls w @ map userId (queue w) @ [uid]
                  \<and> \<not> processing w''"
    if "length outs = length (live ?w')" for outs
  proof -
    from finish_calls [OF wf' busy' that] obtain w'' where
      w'': "exec (finishEvents (workers ?w') outs) ?w' = Some w''"
      "dbCalls w'' = dbCalls ?w' @ map userId (queue ?w')" "\<not> processing w''" by blast
    have "dbCalls ?w' @ map userId (queue ?w') = dbCalls w @ map userId (queue w) @ [uid]"
      using shape wf_idle [OF wf] by (cases "processing w") simp_all
    with w'' show ?thesis by auto
  qed
  show "let p = length (promises w);
            w' = snd (addUserFetchJob w uid now);
            job = \<lparr> userId = uid, timestamp_job = now, promise_job = p \<rparr>
        in addMany w uid (now # nows) = (replicate (Suc (length nows)) p, w')
           \<and> promises w' = promises w @ [Pending]
           \<and> Map_get (pendingRequests w') uid = Some p
           \<and> (if processing w
               then queue w' = queue w @ [job] \<and> workers w' = workers w \<and> dbCalls w' = dbCalls w
               else queue w' = [] \<and> workers w' = [AwaitingDb job]
                    \<and> dbCalls w' = dbCalls w @ [uid])
           \<and> (\<forall>outs. length outs = length (live w') \<longrightarrow>
                 (\<exists>w''. exec (finishEvents (workers w') outs) w' = Some w''
                    \<and> dbCalls w'' = dbCalls w @ map userId (queue w) @ [uid]
                    \<and> \<not> processing w''))"
    unfolding Let_def using many a(2,3) shape finish by (intro conjI allI impI)
next
  assume "Close \<notin> set es"
  with assms show "distinct (map userId (live w))" by (rule one_job_per_key_reachable)
qed

theorem addUserFetchJob_single_flight_witness:
  "addMany QueueService_new 1 [0, 1, 2] = ([0, 0, 0], snd (addUserFetchJob QueueService_new 1 0))
   \<and> dbCalls (snd (addMany QueueService_new 1 [0, 1, 2])) = [1]
   \<and> exec [AddUserFetchJob 1 0] QueueService_new = Some (snd (addUserFetchJob QueueService_new 1 0))
   \<and> fst (addUserFetchJob (snd (addUserFetchJob QueueService_new 1 0)) 1 3) = 0
   \<and> fst (addMany (snd (addUserFetchJob QueueService_new 1 0)) 2 [4, 5]) = [1, 1]
   \<and> map userId (queue (snd (addMany (snd (addUserFetchJob QueueService_new 1 0)) 2 [4, 5]))) = [2]
   \<and> map_option dbCalls
         (exec ([AddUserFetchJob 1 0, AddUserFetchJob 1 1, AddUserFetchJob 1 2]
                @ drainEvents [Returned (Some john)]) QueueService_new) = Some [1]"
proof -
  have r0: "exec [] QueueService_new = Some QueueService_new" by simp
  have r1: "exec [AddUserFetchJob 1 0] QueueService_new
              = Some (snd (addUserFetchJob QueueService_new 1 0))" by simp
  show ?thesis
    using addUserFetchJob_single_flight [OF r0, where uid = 1 and now = 0 and nows = "[1, 2]"]
      addUserFetchJob_single_flight [OF r1, where uid = 1 and now = 3 and nows = "[]"]
      addUserFetchJob_single_flight [OF r1, where uid = 2 and now = 4 and nows = "[5]"]
    by (simp add: queue_ops drainEvents_def)
qed

text \<open>
  C6. When the database call of the job in flight throws, the job's promise, until then
  pending, is rejected with the error and the resumption of its waiters is queued (every
  caller that was handed this promise observes that one rejection), the key's entry in
  \<^verbatim>\<open>pendingRequests\<close> is gone and \<^verbatim>\<open>failed\<close> is counted up.
  The next call for the same key does not return the rejected promise: it returns a new pending
  one and appends a new job to the queue, and when the queue is worked off the database is
  called for the key once more.
\<close>

theorem upstream_failure_not_cached:
  assumes "exec es QueueService_new = Some w" "resumeAfterDb w i (Threw e) = Some w'"
  shows "\<exists>job. workers w = [AwaitingDb job]
     \<and> promises w ! promise_job job = Pending
     \<and> promises w' ! promise_job job = Rejected (rejectReason e)
     \<and> reactions w' = reactions w @ [promise_job job]
     \<and> Map_get (pendingRequests w') (userId job) = None
     \<and> failed (qstats w') = failed (qstats w) + 1
     \<and> (let p = fst (addUserFetchJob w' (userId job) now);
             w'' = snd (addUserFetchJob w' (userId job) now)
         in p = length (promises w') \<and> p \<noteq> promise_job job
            \<and> promises w'' ! p = Pending
            \<and> promises w'' ! promise_job job = Rejected (rejectReason e)
            \<and> queue w'' = queue w' @ [\<lparr> userId = userId job, timestamp_job = now, promise_job = p \<rparr>]
            \<and> (\<forall>outs. length outs = length (queue w'') \<longrightarrow>
                  (\<exists>w3. exec (DelayElapsed 0 # drainEvents outs) w'' = Some w3
                     \<and> dbCalls w3 = dbCalls w @ map userId (queue w) @ [userId job])))"
proof -
  have wf: "wf w" using assms(1) by (rule wf_reachable)
  from resumeAfterDb_effect [OF wf assms(2)] obtain job where
    job: "workers w = [AwaitingDb job]" "promises w ! promise_job job = Pending"
      "promises w' ! promise_job job = Rejected (rejectReason e)"
      "length (promises w') = length (promises w)"
      "Map_get (pendingRequests w') (userId job) = None"
      "workers w' = [AwaitingDelay]" "processing w'" "queue w' = queue w" "dbCalls w' = dbCalls w"
      "qstats w' = (qstats w)\<lparr> failed := failed (qstats w) + 1 \<rparr>"
      "reactions w' = reactions w @ [promise_job job]"
    by auto
  have "job \<in> set (live w)" by (simp add: live_def job)
  from wf_pending [OF wf this] have lt: "promise_job job < length (promises w)" by simp
  have failed: "failed (qstats w') = failed (qstats w) + 1"
    by (simp add: job(10))
  let ?p = "length (promises w')"
  let ?w'' = "snd (addUserFetchJob w' (userId job) now)"
  note add = add_busy [OF job(5) job(7), of now]
  have q: "queue ?w'' = queue w' @ [\<lparr> userId = userId job, timestamp_job = now, promise_job = ?p \<rparr>]"
    and ws: "workers ?w'' = [AwaitingDelay]" and calls: "dbCalls ?w'' = dbCalls w"
    and ps: "promises ?w'' = promises w' @ [Pending]" and fst: "fst (addUserFetchJob w' (userId job) now) = ?p"
    by (simp_all add: add job)
  have drain: "\<exists>w3. exec (DelayElapsed 0 # drainEvents outs) ?w'' = Some w3
                 \<and> dbCalls w3 = dbCalls w @ map userId (queue w) @ [userId job]"
    if "length outs = length (queue ?w'')" for outs
  proof -
    from drain_delay [OF ws that] obtain w3 where
      "exec (DelayElapsed 0 # drainEvents outs) ?w'' = Some w3"
      "dbCalls w3 = dbCalls ?w'' @ map userId (queue ?w'')" by blast
    then show ?thesis by (auto simp: q calls job)
  qed
  have new: "?p \<noteq> promise_job job" "promises ?w'' ! ?p = Pending"
    "promises ?w'' ! promise_job job = Rejected (rejectReason e)"
    using lt job(3,4) by (simp_all add: ps nth_append)
  have "let p = fst (addUserFetchJob w' (userId job) now);
            w'' = snd (addUserFetchJob w' (userId job) now)
        in p = length (promises w') \<and> p \<noteq> promise_job job
           \<and> promises w'' ! p = Pending
           \<and> promises w'' ! promise_job job = Rejected (rejectReason e)
           \<and> queue w'' = queue w' @ [\<lparr> userId = userId job, timestamp_job = now, promise_job = p \<rparr>]
           \<and> (\<forall>outs. length outs = length (queue w'') \<longrightarrow>
                 (\<exists>w3. exec (DelayElapsed 0 # drainEvents outs) w'' = Some w3
                    \<and> dbCalls w3 = dbCalls w @ map userId (queue w) @ [userId job]))"
    unfolding Let_def fst using new q drain by (intro conjI allI impI) simp_all
  with job(1,2,3,5,11) failed show ?thesis
    by (intro exI [of _ job] conjI)
qed

theorem upstream_failure_not_cached_witness:
  "exec [AddUserFetchJob 1 0] QueueService_new = Some example_inflight
   \<and> resumeAfterDb example_inflight 0 (Threw (ThrownError ''connection lost'')) = Some example_failed
   \<and> promises example_inflight ! 0 = Pending
   \<and> promises example_failed ! 0 = Rejected (Error ''connection lost'')
   \<and> reactions example_failed = [0]
   \<and> Map_get (pendingRequests example_failed) 1 = None
   \<and> fst (addUserFetchJob example_failed 1 7) = 1
   \<and> map_option dbCalls
        (exec (DelayElapsed 0 # drainEvents [Returned (Some john)])
           (snd (addUserFetchJob example_failed 1 7))) = Some [1, 1]"
  using upstream_failure_not_cached [OF exec_example_inflight example_fails, of 7]
    exec_example_inflight example_fails
  by (simp add: queue_ops drainEvents_def example_inflight_def example_failed_def)

text \<open>
  C8. The waiters of a promise are resumed by a microtask, which the settling code queues and
  which runs only after that code has reached its next \<^verbatim>\<open>await\<close>. In every world the events
  can reach, every promise registered in \<^verbatim>\<open>pendingRequests\<close> is pending, and every promise
  whose waiters are about to be resumed is settled and registered under no key. When the
  database call of the job in flight completes, with either outcome, the job's promise is
  settled, the resumption of its waiters is queued, and the key is not registered any more;
  and the promise that a call of \<^verbatim>\<open>addUserFetchJob\<close> returns is always pending, so no caller
  is ever attached to a settled promise, and a call after the completion gets a new promise.
\<close>

theorem settled_promise_not_registered:
  assumes "exec es QueueService_new = Some w"
  shows "(\<forall>(k, p) \<in> set (pendingRequests w). p < length (promises w) \<and> promises w ! p = Pending)
    \<and> (\<forall>p \<in> set (reactions w).
          promises w ! p \<noteq> Pending \<and> p \<notin> snd ` set (pendingRequests w))
    \<and> (\<forall>i out w'. resumeAfterDb w i out = Some w' \<longrightarrow>
          (\<exists>job. workers w = [AwaitingDb job]
             \<and> promises w' ! promise_job job \<noteq> Pending
             \<and> reactions w' = reactions w @ [promise_job job]
             \<and> Map_get (pendingRequests w') (userId job) = None
             \<and> fst (addUserFetchJob w' (userId job) now) = length (promises w')
             \<and> fst (addUserFetchJob w' (userId job) now) \<noteq> promise_job job))
    \<and> fst (addUserFetchJob w uid now) < length (promises (snd (addUserFetchJob w uid now)))
    \<and> promises (snd (addUserFetchJob w uid now)) ! fst (addUserFetchJob w uid now) = Pending"
proof -
  have wf: "wf w" using assms by (rule wf_reachable)
  have 1: "\<forall>(k, p) \<in> set (pendingRequests w). p < length (promises w) \<and> promises w ! p = Pending"
    using registered_pending [OF wf] by auto
  have 2: "\<exists>job. workers w = [AwaitingDb job]
             \<and> promises w' ! promise_job job \<noteq> Pending
             \<and> reactions w' = reactions w @ [promise_job job]
             \<and> Map_get (pendingRequests w') (userId job) = None
             \<and> fst (addUserFetchJob w' (userId job) now) = length (promises w')
             \<and> fst (addUserFetchJob w' (userId job) now) \<noteq> promise_job job"
    if "resumeAfterDb w i out = Some w'" for i out w'
  proof -
    from resumeAfterDb_effect [OF wf that] obtain job where
      job: "workers w = [AwaitingDb job]"
        "promises w' ! promise_job job =
           (case out of Returned user \<Rightarrow> Fulfilled user | Threw e \<Rightarrow> Rejected (rejectReason e))"
        "length (promises w') = length (promises w)"
        "Map_get (pendingRequests w') (userId job) = None"
        "reactions w' = reactions w @ [promise_job job]"
      by auto
    have "job \<in> set (live w)" by (simp add: live_def job)
    from wf_pending [OF wf this] have lt: "promise_job job < length (promises w)" by simp
    have wf': "wf w'" using wf that by (rule wf_resumeAfterDb)
    from add_None(1) [OF wf' job(4), of now]
    have "fst (addUserFetchJob w' (userId job) now) = length (promises w')" .
    moreover have "promises w' ! promise_job job \<noteq> Pending"
      by (cases out) (simp_all add: job(2))
    ultimately show ?thesis
      using job(1,3,4,5) lt by (intro exI [of _ job]) simp
  qed
  have 3: "promises w ! p \<noteq> Pending \<and> p \<notin> snd ` set (pendingRequests w)"
    if p: "p \<in> set (reactions w)" for p
  proof -
    from reactions_settledD [OF reactions_settled_reachable [OF assms] p]
    have s: "promises w ! p \<noteq> Pending" by simp
    have "p \<notin> snd ` set (pendingRequests w)"
    proof
      assume "p \<in> snd ` set (pendingRequests w)"
      then obtain k where "(k, p) \<in> set (pendingRequests w)" by force
      from registered_pending [OF wf this] s show False by simp
    qed
    with s show ?thesis by simp
  qed
  from 1 2 3 add_returns_pending [OF wf, of uid now] show ?thesis by blast
qed

theorem settled_promise_not_registered_witness:
  "exec [AddUserFetchJob 1 0] QueueService_new = Some example_inflight
   \<and> pendingRequests example_inflight = [(1, 0)] \<and> promises example_inflight ! 0 = Pending
   \<and> resumeAfterDb example_inflight 0 (Threw (ThrownError ''connection lost'')) = Some example_failed
   \<and> exec [AddUserFetchJob 1 0, DbSettled 0 (Threw (ThrownError ''connection lost''))]
        QueueService_new = Some example_failed
   \<and> reactions example_failed = [0]
   \<and> promises example_failed ! 0 \<noteq> Pending \<and> pendingRequests example_failed = []
   \<and> fst (addUserFetchJob example_failed 1 7) = 1
   \<and> promises (snd (addUserFetchJob example_inflight 1 3)) ! fst (addUserFetchJob example_inflight 1 3)
       = Pending"
proof -
  have r: "exec [AddUserFetchJob 1 0, DbSettled 0 (Threw (ThrownError ''connection lost''))]
             QueueService_new = Some example_failed"
    using exec_example_inflight example_fails by simp
  show ?thesis
    using settled_promise_not_registered [OF exec_example_inflight, where now = 7 and uid = 1]
      settled_promise_not_registered [OF r, where now = 3 and uid = 1]
      exec_example_inflight example_fails r
    by (simp add: queue_ops example_inflight_def example_failed_def)
qed

lemma rejectQueued_reactions:
  assumes "distinct (map promise_job js)"
    "\<And>j. j \<in> set js \<Longrightarrow> promise_job j < length ps \<and> ps ! promise_job j = Pending"
  shows "snd (rejectQueued js (ps, rs)) = rs @ map promise_job js"
  using assms
proof (induction js arbitrary: ps rs)
  case Nil
  then show ?case by (simp add: rejectQueued_def)
next
  case (Cons j js)
  let ?ps = "settle ps (promise_job j) (Rejected shutdownError)"
  have q: "queueReaction ps (promise_job j) rs = rs @ [promise_job j]"
    using Cons.prems(2) [of j] by (simp add: queueReaction_def)
  have d: "distinct (map promise_job js)" using Cons.prems(1) by simp
  have "promise_job k < length ?ps \<and> ?ps ! promise_job k = Pending" if "k \<in> set js" for k
  proof -
    from that have "promise_job k \<in> promise_job ` set js" by simp
    moreover from Cons.prems(1) have "promise_job j \<notin> promise_job ` set js" by simp
    ultimately have "promise_job k \<noteq> promise_job j" by metis
    with Cons.prems(2) [of k] that show ?thesis by (simp add: settle_length settle_other)
  qed
  from Cons.IH [OF d this, of "rs @ [promise_job j]"] show ?case
    by (simp add: rejectQueued_def q)
qed

text \<open>
  C9. In every world the events can reach, \<^verbatim>\<open>close()\<close> rejects the promise of every job
  that is still in the queue, pending until then, with the error
  \<^verbatim>\<open>Queue service is shutting down\<close>, queues the resumption of the waiters of each, and
  leaves the queue and \<^verbatim>\<open>pendingRequests\<close> empty.
\<close>

theorem close_rejects_queued_jobs:
  assumes "exec es QueueService_new = Some w"
  shows "(\<forall>job \<in> set (queue w).
            promises w ! promise_job job = Pending
            \<and> promises (close w) ! promise_job job = Rejected shutdownError)
    \<and> reactions (close w) = reactions w @ map promise_job (queue w)
    \<and> queue (close w) = [] \<and> pendingRequests (close w) = []"
proof -
  have wf: "wf w" using assms by (rule wf_reachable)
  have d: "distinct (map promise_job (queue w))"
    using wf_distinct [OF wf] by (simp add: live_def)
  have p: "promise_job j < length (promises w) \<and> promises w ! promise_job j = Pending"
    if "j \<in> set (queue w)" for j
    using wf_pending [OF wf, of j] that by (simp add: live_def)
  have "promises (close w) ! promise_job job = Rejected shutdownError"
    if "job \<in> set (queue w)" for job
    using fold_settle_rejects [OF d p that] by (simp add: close_fields)
  with p rejectQueued_reactions [OF d p, of "reactions w"] show ?thesis
    by (simp add: close_fields)
qed

theorem close_rejects_queued_jobs_witness:
  "exec [AddUserFetchJob 1 0, AddUserFetchJob 2 1, AddUserFetchJob 3 2] QueueService_new
     = Some example_queued
   \<and> map promise_job (queue example_queued) = [1, 2]
   \<and> promises (close example_queued) = [Pending, Rejected shutdownError, Rejected shutdownError]
   \<and> reactions (close example_queued) = [1, 2]
   \<and> queue (close example_queued) = [] \<and> pendingRequests (close example_queued) = []"
  using close_rejects_queued_jobs [OF exec_example_queued] exec_example_queued
  by (simp add: queue_ops example_queued_def)

text \<open>
  C10. In every world the events can reach there is at most one activation of
  \<^verbatim>\<open>processQueue\<close>, hence at most one database call in flight, whatever the keys. A database
  call is issued only when none is in flight; when one returns, the activation waits for the
  timer and issues nothing; when the timer fires it takes the first job of the queue and calls
  the database for it, or ends if the queue is empty. (The timer's 10 ms are the event
  \<open>DelayElapsed\<close>; durations are not part of the model.)
\<close>

theorem one_database_call_at_a_time:
  assumes "exec es QueueService_new = Some w"
  shows "length (workers w) \<le> 1 \<and> length (inflight (workers w)) \<le> 1
    \<and> processing w = (workers w \<noteq> [])
    \<and> (\<forall>e w'. step e w = Some w' \<and> dbCalls w' \<noteq> dbCalls w \<longrightarrow>
          inflight (workers w) = []
          \<and> (\<exists>job. workers w' = [AwaitingDb job] \<and> dbCalls w' = dbCalls w @ [userId job]))
    \<and> (\<forall>i out w'. resumeAfterDb w i out = Some w' \<longrightarrow>
          workers w' = [AwaitingDelay] \<and> dbCalls w' = dbCalls w \<and> queue w' = queue w)
    \<and> (\<forall>i w'. resumeAfterDelay w i = Some w' \<longrightarrow>
          (case queue w of
             [] \<Rightarrow> workers w' = [] \<and> \<not> processing w' \<and> dbCalls w' = dbCalls w
           | job # rest \<Rightarrow> workers w' = [AwaitingDb job] \<and> queue w' = rest
                          \<and> dbCalls w' = dbCalls w @ [userId job]))"
proof -
  have wf: "wf w" using assms by (rule wf_reachable)
  have one: "length (workers w) \<le> 1" using wf by (rule wf_workers)
  have infl: "length (inflight (workers w)) \<le> 1"
  proof (cases "workers w")
    case Nil
    then show ?thesis by simp
  next
    case (Cons x xs)
    with one have "xs = []" by simp
    with Cons show ?thesis by (cases x) simp_all
  qed
  have db: "workers w' = [AwaitingDelay] \<and> dbCalls w' = dbCalls w \<and> queue w' = queue w"
    if "resumeAfterDb w i out = Some w'" for i out w'
    using resumeAfterDb_effect [OF wf that] by auto
  have delay: "case queue w of
             [] \<Rightarrow> workers w' = [] \<and> \<not> processing w' \<and> dbCalls w' = dbCalls w
           | job # rest \<Rightarrow> workers w' = [AwaitingDb job] \<and> queue w' = rest
                          \<and> dbCalls w' = dbCalls w @ [userId job]"
    if "resumeAfterDelay w i = Some w'" for i w'
    using resumeAfterDelay_Some [OF wf that]
    by (simp add: processQueue_loop_def split: list.splits)
  have calls: "inflight (workers w) = []
          \<and> (\<exists>job. workers w' = [AwaitingDb job] \<and> dbCalls w' = dbCalls w @ [userId job])"
    if s: "step e w = Some w'" and c: "dbCalls w' \<noteq> dbCalls w" for e w'
  proof (cases e)
    case (AddUserFetchJob uid now)
    with s have w': "w' = snd (addUserFetchJob w uid now)" by simp
    show ?thesis
    proof (cases "Map_get (pendingRequests w) uid")
      case (Some p)
      with c w' show ?thesis by (simp add: add_registered)
    next
      case None
      show ?thesis
      proof (cases "processing w")
        case True
        with c w' show ?thesis by (simp add: add_busy [OF None True])
      next
        case False
        note e = wf_idle_empty [OF wf False]
        show ?thesis by (simp add: w' add_idle [OF None False e(2)] e)
      qed
    qed
  next
    case (DbSettled i out)
    with s c db show ?thesis by simp
  next
    case (DelayElapsed i)
    with s have r: "resumeAfterDelay w i = Some w'" by simp
    from resumeAfterDelay_Some [OF wf r] have "workers w = [AwaitingDelay]" by simp
    with delay [OF r] c show ?thesis by (cases "queue w") simp_all
  next
    case Close
    with s have "dbCalls w' = dbCalls w" by (auto simp: close_fields)
    with c show ?thesis by simp
  next
    case RunReaction
    with s have "dbCalls w' = dbCalls w" by (auto simp: runReaction_def split: list.splits)
    with c show ?thesis by simp
  qed
  from one infl wf_processing [OF wf] calls db delay show ?thesis by blast
qed

theorem one_database_call_at_a_time_witness:
  "exec [AddUserFetchJob 1 0, AddUserFetchJob 2 1, AddUserFetchJob 3 2] QueueService_new
     = Some example_queued
   \<and> length (inflight (workers example_queued)) = 1
   \<and> dbCalls example_queued = [1]
   \<and> map_option workers (step (DbSettled 0 (Returned (Some john))) example_queued)
       = Some [AwaitingDelay]
   \<and> map_option dbCalls (step (DbSettled 0 (Returned (Some john))) example_queued) = Some [1]
   \<and> map_option dbCalls
        (exec [DbSettled 0 (Returned (Some john)), DelayElapsed 0] example_queued) = Some [1, 2]"
  using one_database_call_at_a_time [OF exec_example_queued] exec_example_queued
  by (simp add: queue_ops example_queued_def)

section \<open>Statistics\<close>

lemma counters_le_refl: "counters_le s s"
  by (simp add: counters_le_def)

lemma counters_le_trans: "counters_le s t \<Longrightarrow> counters_le t u \<Longrightarrow> counters_le s u"
  by (auto simp: counters_le_def)

lemma get_counters:
  "startTime \<le> endTime \<Longrightarrow>
   counters_le (stats c) (stats (snd (LRUCache_get c key startTime now touchTime endTime)))"
  by (simp add: LRUCache_get_def updateStats_def counters_le_def Let_def split: option.splits)

lemma set_counters: "counters_le (stats c) (stats (LRUCache_set c key d now))"
  by (simp add: LRUCache_set_def counters_le_def Let_def split: option.splits)

lemma delete_counters: "counters_le (stats c) (stats (snd (LRUCache_delete c key)))"
  by (simp add: LRUCache_delete_def counters_le_def Let_def)

lemma clear_counters: "counters_le (stats c) (stats (LRUCache_clear c))"
  by (simp add: LRUCache_clear_def counters_le_def)

lemma cleanup_fold_counters:
  "counters_le (stats c)
     (stats (fold (\<lambda>key c'. c'\<lparr> cache := Map_delete (cache c') key,
                          stats := (stats c')\<lparr> size_stat := size_stat (stats c') - 1 \<rparr> \<rparr>) keys c))"
proof (induction keys arbitrary: c)
  case Nil
  show ?case by (simp add: counters_le_refl)
next
  case (Cons key keys)
  have "counters_le (stats c)
          (stats (c\<lparr> cache := Map_delete (cache c) key,
                     stats := (stats c)\<lparr> size_stat := size_stat (stats c) - 1 \<rparr> \<rparr>))"
    by (simp add: counters_le_def)
  from counters_le_trans [OF this Cons.IH] show ?case by simp
qed

lemma cleanup_counters: "counters_le (stats c) (stats (cleanupExpiredEntries c now))"
  unfolding cleanupExpiredEntries_def by (rule cleanup_fold_counters)

lemma cache_step_counters:
  "clock_forward op \<Longrightarrow> counters_le (stats c) (stats (cache_step op c))"
  by (cases op)
     (simp_all add: get_counters set_counters delete_counters clear_counters cleanup_counters)

lemma cache_run_counters:
  "list_all clock_forward ops \<Longrightarrow> counters_le (stats c) (stats (fold cache_step ops c))"
proof (induction ops arbitrary: c)
  case Nil
  show ?case by (simp add: counters_le_refl)
next
  case (Cons op ops)
  then have "counters_le (stats c) (stats (cache_step op c))"
    and "counters_le (stats (cache_step op c)) (stats (fold cache_step ops (cache_step op c)))"
    by (simp_all add: cache_step_counters)
  from counters_le_trans [OF this] show ?case by simp
qed

lemma step_throughput:
  assumes "step e w = Some w'"
  shows "processed (qstats w) \<le> processed (qstats w') \<and> failed (qstats w) \<le> failed (qstats w')"
proof (cases e)
  case (AddUserFetchJob uid now)
  with assms show ?thesis
    by (auto simp: addUserFetchJob_def processQueue_def processQueue_loop_def Let_def
             split: option.splits list.splits)
next
  case (DbSettled i out)
  with assms show ?thesis
    by (auto simp: resumeAfterDb_def Let_def split: if_splits worker.splits outcome.splits)
next
  case (DelayElapsed i)
  with assms show ?thesis
    by (auto simp: resumeAfterDelay_def processQueue_loop_def split: if_splits list.splits)
next
  case Close
  with assms show ?thesis by (auto simp: close_fields)
next
  case RunReaction
  with assms show ?thesis by (auto simp: runReaction_def split: list.splits)
qed

lemma exec_throughput:
  "exec es w = Some w' \<Longrightarrow>
   processed (qstats w) \<le> processed (qstats w') \<and> failed (qstats w) \<le> failed (qstats w')"
proof (induction es arbitrary: w)
  case Nil
  then show ?case by simp
next
  case (Cons e es)
  from Cons.prems obtain w1 where w1: "step e w = Some w1" "exec es w1 = Some w'"
    by (auto split: option.splits)
  from step_throughput [OF w1(1)] Cons.IH [OF w1(2)] show ?case by linarith
qed

lemma counts_le_refl: "counts_le s s"
  by (simp add: counts_le_def)

lemma counts_le_trans: "counts_le s t \<Longrightarrow> counts_le t u \<Longrightarrow> counts_le s u"
  by (auto simp: counts_le_def)

lemma get_counts:
  "counts_le (stats c) (stats (snd (LRUCache_get c key startTime now touchTime endTime)))"
  by (simp add: LRUCache_get_def updateStats_def counts_le_def Let_def split: option.splits)

lemma set_counts: "counts_le (stats c) (stats (LRUCache_set c key d now))"
  by (simp add: LRUCache_set_def counts_le_def Let_def split: option.splits)

lemma delete_counts: "counts_le (stats c) (stats (snd (LRUCache_delete c key)))"
  by (simp add: LRUCache_delete_def counts_le_def Let_def)

lemma clear_counts: "counts_le (stats c) (stats (LRUCache_clear c))"
  by (simp add: LRUCache_clear_def counts_le_def)

lemma cleanup_fold_counts:
  "counts_le (stats c)
     (stats (fold (\<lambda>key c'. c'\<lparr> cache := Map_delete (cache c') key,
                          stats := (stats c')\<lparr> size_stat := size_stat (stats c') - 1 \<rparr> \<rparr>) keys c))"
proof (induction keys arbitrary: c)
  case Nil
  show ?case by (simp add: counts_le_refl)
next
  case (Cons key keys)
  have "counts_le (stats c)
          (stats (c\<lparr> cache := Map_delete (cache c) key,
                     stats := (stats c)\<lparr> size_stat := size_stat (stats c) - 1 \<rparr> \<rparr>))"
    by (simp add: counts_le_def)
  from counts_le_trans [OF this Cons.IH] show ?case by simp
qed

lemma cleanup_counts: "counts_le (stats c) (stats (cleanupExpiredEntries c now))"
  unfolding cleanupExpiredEntries_def by (rule cleanup_fold_counts)

lemma cache_step_counts: "counts_le (stats c) (stats (cache_step op c))"
  by (cases op) (simp_all add: get_counts set_counts delete_counts clear_counts cleanup_counts)

lemma cache_run_counts: "counts_le (stats c) (stats (fold cache_step ops c))"
proof (induction ops arbitrary: c)
  case Nil
  show ?case by (simp add: counts_le_refl)
next
  case (Cons op ops)
  from counts_le_trans [OF cache_step_counts Cons.IH] show ?case by simp
qed

lemma step_pending:
  assumes "step e w = Some w'"
  shows "pending (qstats w') = pending (qstats w) + pending_change e w"
proof (cases e)
  case (AddUserFetchJob uid now)
  with assms show ?thesis
    by (auto simp: addUserFetchJob_def processQueue_def processQueue_loop_def Let_def
             split: option.splits list.splits)
next
  case (DbSettled i out)
  with assms show ?thesis
    by (auto simp: resumeAfterDb_def Let_def split: if_splits worker.splits outcome.splits)
next
  case (DelayElapsed i)
  with assms show ?thesis
    by (auto simp: resumeAfterDelay_def processQueue_loop_def split: if_splits list.splits)
next
  case Close
  with assms show ?thesis by (auto simp: close_fields)
next
  case RunReaction
  with assms show ?thesis by (auto simp: runReaction_def split: list.splits)
qed

text \<open>
  C7, as the code has it. Across every sequence of cache operations (\<^verbatim>\<open>clear\<close> and the
  background cleanup included) the counters \<^verbatim>\<open>hits\<close>, \<^verbatim>\<open>misses\<close> and \<^verbatim>\<open>totalRequests\<close> never
  decrease, and \<^verbatim>\<open>totalResponseTime\<close> never decreases provided the clock does not run backwards
  between the first and the last reading of a \<^verbatim>\<open>get\<close>; across every sequence of queue events
  (\<^verbatim>\<open>close\<close> included) the counters \<^verbatim>\<open>processed\<close> and \<^verbatim>\<open>failed\<close> never decrease.
  \<^verbatim>\<open>pending\<close> is not among them: a step adds 1 to it when \<^verbatim>\<open>addUserFetchJob\<close> enqueues a job
  for an unregistered key while the service is processing, subtracts 1 when the loop of
  \<^verbatim>\<open>processQueue\<close> resumes from its timer and takes a job from the queue, and leaves it alone
  otherwise; \<^verbatim>\<open>close\<close> does not reset it.
\<close>

theorem counters_never_decrease:
  "hits (stats c) \<le> hits (stats (fold cache_step ops c))
   \<and> misses (stats c) \<le> misses (stats (fold cache_step ops c))
   \<and> totalRequests (stats c) \<le> totalRequests (stats (fold cache_step ops c))
   \<and> (list_all clock_forward ops \<longrightarrow>
        totalResponseTime (stats c) \<le> totalResponseTime (stats (fold cache_step ops c)))
   \<and> (exec es w = Some w' \<longrightarrow>
        processed (qstats w) \<le> processed (qstats w') \<and> failed (qstats w) \<le> failed (qstats w'))
   \<and> (step e v = Some v' \<longrightarrow>
        pending (qstats v') = pending (qstats v) + pending_change e v)"
  using cache_run_counts [of c ops] cache_run_counters [of ops c] exec_throughput [of es w w']
    step_pending [of e v v']
  by (simp add: counters_le_def counts_le_def)

theorem counters_never_decrease_witness:
  "list_all clock_forward
     [CacheSet ''user:1'' john 0, CacheGet ''user:1'' 5 5 5 6, CacheClear, CacheGet ''user:1'' 7 7 7 9]
   \<and> hits (stats (fold cache_step
        [CacheSet ''user:1'' john 0, CacheGet ''user:1'' 5 5 5 6, CacheClear, CacheGet ''user:1'' 7 7 7 9]
        (LRUCache_new 100 60))) = 1
   \<and> misses (stats (fold cache_step
        [CacheSet ''user:1'' john 0, CacheGet ''user:1'' 5 5 5 6, CacheClear, CacheGet ''user:1'' 7 7 7 9]
        (LRUCache_new 100 60))) = 1
   \<and> totalRequests (stats (fold cache_step
        [CacheSet ''user:1'' john 0, CacheGet ''user:1'' 5 5 5 6, CacheClear, CacheGet ''user:1'' 7 7 7 9]
        (LRUCache_new 100 60))) = 2
   \<and> totalResponseTime (stats (fold cache_step
        [CacheSet ''user:1'' john 0, CacheGet ''user:1'' 5 5 5 6, CacheClear, CacheGet ''user:1'' 7 7 7 9]
        (LRUCache_new 100 60))) = 3
   \<and> \<not> clock_forward (CacheGet ''user:1'' 10 10 10 9)
   \<and> misses (stats (fold cache_step [CacheGet ''user:1'' 10 10 10 9] (LRUCache_new 100 60))) = 1
   \<and> map_option (\<lambda>w. (processed (qstats w), failed (qstats w)))
        (exec [AddUserFetchJob 1 0, DbSettled 0 (Returned (Some john)), Close, DelayElapsed 0,
               AddUserFetchJob 2 1, DbSettled 0 (Threw ThrownOther)] QueueService_new)
      = Some (1, 1)
   \<and> pending (qstats example_inflight) = 0
   \<and> map_option (pending \<circ> qstats) (step (AddUserFetchJob 2 1) example_inflight) = Some 1
   \<and> pending (qstats example_queued) = 2
   \<and> map_option (pending \<circ> qstats) (step Close example_queued) = Some 2
   \<and> map_option queue (step Close example_queued) = Some []
   \<and> map_option (pending \<circ> qstats)
        (exec [DbSettled 0 (Returned (Some john)), DelayElapsed 0] example_queued) = Some 1"
  using counters_never_decrease [where
      ops = "[CacheSet ''user:1'' john 0, CacheGet ''user:1'' 5 5 5 6, CacheClear,
              CacheGet ''user:1'' 7 7 7 9]"
      and c = "LRUCache_new 100 60"
      and es = "[AddUserFetchJob 1 0, DbSettled 0 (Returned (Some john)), Close, DelayElapsed 0,
                 AddUserFetchJob 2 1, DbSettled 0 (Threw ThrownOther)]"
      and w = QueueService_new
      and e = "AddUserFetchJob 2 1" and v = example_inflight]
    counters_never_decrease [where ops = "[CacheGet ''user:1'' 10 10 10 9]"
      and c = "LRUCache_new 100 60" and e = Close and v = example_queued]
  by (simp add: queue_ops cache_ops LRUCache_clear_def example_inflight_def example_queued_def)

text \<open>
  C7 as stated fails for \<^verbatim>\<open>pending\<close>: with one job in flight and one queued it is 1, and the
  next round of the loop, which takes the queued job, makes it 0. It also needs the clock:
  a \<^verbatim>\<open>get\<close> during which \<^verbatim>\<open>Date.now()\<close> steps back from 10 to 9 adds -1 to
  \<^verbatim>\<open>totalResponseTime\<close>.
\<close>

theorem counters_can_decrease:
  "map_option (pending \<circ> qstats)
     (exec [AddUserFetchJob 1 0, AddUserFetchJob 2 1, DbSettled 0 (Returned (Some john))]
        QueueService_new) = Some 1
   \<and> map_option (pending \<circ> qstats)
     (exec [AddUserFetchJob 1 0, AddUserFetchJob 2 1, DbSettled 0 (Returned (Some john)),
            DelayElapsed 0] QueueService_new) = Some 0
   \<and> totalResponseTime (stats (LRUCache_new 100 60)) = 0
   \<and> totalResponseTime (stats (cache_step (CacheGet ''user:1'' 10 10 10 9) (LRUCache_new 100 60)))
       = - 1"
  by (simp add: queue_ops cache_ops)

end
